theory Spec2Isabelle
  imports Main "HOL-Library.Word" "HOL-Library.Multiset"
begin

unbundle bit_operations_syntax

section \<open>Memory, faults and C integers\<close>

text \<open>
  The kernels of \<^verbatim>\<open>simulator.cpp\<close> work on caller-owned buffers through raw pointers.
  A buffer is one allocation: its byte address and its cells. A pointer argument of a
  kernel names the allocation it points to the start of, as the allocations of
  \<^verbatim>\<open>main.cpp\<close> do (\<^verbatim>\<open>aligned_alloc\<close>, \<^verbatim>\<open>new float[n * n]\<close>), so two pointer
  arguments either are the same buffer or are disjoint. The heap maps every pointer to its
  buffer; a pointer that was never allocated has no cells.

  The undefined behaviour a kernel can run into is a fault of the model: an access
  outside the cells of a buffer, an aligned vector access at an address that is not a
  multiple of 32, an overflow of \<^verbatim>\<open>int\<close> arithmetic, and \<^verbatim>\<open>std::memcpy\<close> between
  overlapping regions. A kernel returns either the fault or the heap it leaves behind.
  A function that is not built, because its inline assembly does not assemble or its
  source file does not compile for the target, returns nothing either, and that is a fault
  as well.

  The loops under \<^verbatim>\<open>#pragma omp parallel for\<close> are run in the order of the sequential
  loop; that every other order of their iterations, and every interleaving of the loads and
  stores of their iterations, returns the same heap is proved further down.

  The cell type is a parameter. For the position updaters it carries an addition, which
  stands for the addition of IEEE single precision: the scalar \<^verbatim>\<open>+=\<close> and each lane of
  \<^verbatim>\<open>_mm256_add_ps\<close> are that same operation, and no law of it is assumed.
\<close>

datatype error = OutOfBounds | Misaligned | IntOverflow | Overlap | NotBuilt

record 'a buffer =
  base :: nat
  cells :: "'a list"

type_synonym ptr = nat

type_synonym 'a heap = "ptr \<Rightarrow> 'a buffer"

fun and_then :: "error + 'a \<Rightarrow> ('a \<Rightarrow> error + 'b) \<Rightarrow> error + 'b" where
  "and_then (Inl e) f = Inl e"
| "and_then (Inr v) f = f v"

definition INT_MAX :: int where
  "INT_MAX = 2147483647"

text \<open>The value of an \<^verbatim>\<open>int\<close> expression: signed overflow is undefined.\<close>

definition int_ok :: "int \<Rightarrow> error + int" where
  "int_ok v = (if - INT_MAX - 1 \<le> v \<and> v \<le> INT_MAX then Inr v else Inl IntOverflow)"

definition int_add :: "int \<Rightarrow> int \<Rightarrow> error + int" where
  "int_add a b = int_ok (a + b)"

definition int_mul :: "int \<Rightarrow> int \<Rightarrow> error + int" where
  "int_mul a b = int_ok (a * b)"

text \<open>\<^verbatim>\<open>p[i]\<close> as an rvalue and \<^verbatim>\<open>p[i] = v\<close>.\<close>

definition load :: "'a heap \<Rightarrow> ptr \<Rightarrow> int \<Rightarrow> error + 'a" where
  "load h p i =
     (if 0 \<le> i \<and> nat i < length (cells (h p)) then Inr (cells (h p) ! nat i)
      else Inl OutOfBounds)"

definition store :: "'a heap \<Rightarrow> ptr \<Rightarrow> int \<Rightarrow> 'a \<Rightarrow> error + 'a heap" where
  "store h p i v =
     (if 0 \<le> i \<and> nat i < length (cells (h p))
      then Inr (h(p := (h p)\<lparr>cells := (cells (h p))[nat i := v]\<rparr>))
      else Inl OutOfBounds)"

text \<open>
  The iterations of a loop, run one after the other in a given order; the first fault
  ends the run.
\<close>

fun run_order :: "('i \<Rightarrow> 's \<Rightarrow> error + 's) \<Rightarrow> 'i list \<Rightarrow> 's \<Rightarrow> error + 's" where
  "run_order body [] s = Inr s"
| "run_order body (i # is) s =
     (case body i s of Inl e \<Rightarrow> Inl e | Inr s' \<Rightarrow> run_order body is s')"

text \<open>The values \<^verbatim>\<open>i\<close> takes in \<^verbatim>\<open>for (int i = i0; i < n; i += step)\<close>.\<close>

function iterations :: "int \<Rightarrow> int \<Rightarrow> int \<Rightarrow> int list" where
  "iterations i n step =
     (if i < n \<and> 0 < step then i # iterations (i + step) n step else [])"
  by pat_completeness auto
termination
  by (relation "measure (\<lambda>(i, n, step). nat (n - i))") auto

declare iterations.simps [simp del]

section \<open>Vector Position Updater\<close>

subsection \<open>The AVX operations of \<^verbatim>\<open>update_positions_simd\<close>\<close>

text \<open>
  A \<^verbatim>\<open>__m256\<close> holds eight floats. \<^verbatim>\<open>_mm256_load_ps\<close> and \<^verbatim>\<open>_mm256_store_ps\<close>
  move eight consecutive cells and need the address, the buffer's address plus
  \<^verbatim>\<open>sizeof(float) = 4\<close> bytes for each cell before it, to be a multiple of 32.
\<close>

definition aligned32 :: "'a heap \<Rightarrow> ptr \<Rightarrow> int \<Rightarrow> bool" where
  "aligned32 h p i = ((int (base (h p)) + 4 * i) mod 32 = 0)"

definition mm256_load_ps :: "'a heap \<Rightarrow> ptr \<Rightarrow> int \<Rightarrow> error + 'a list" where
  "mm256_load_ps h p i =
     (if \<not> aligned32 h p i then Inl Misaligned
      else if 0 \<le> i \<and> nat i + 8 \<le> length (cells (h p))
        then Inr (take 8 (drop (nat i) (cells (h p))))
      else Inl OutOfBounds)"

definition mm256_add_ps :: "'a::plus list \<Rightarrow> 'a list \<Rightarrow> 'a list" where
  "mm256_add_ps a b = map2 (+) a b"

definition mm256_store_ps :: "'a heap \<Rightarrow> ptr \<Rightarrow> int \<Rightarrow> 'a list \<Rightarrow> error + 'a heap" where
  "mm256_store_ps h p i v =
     (if \<not> aligned32 h p i then Inl Misaligned
      else if 0 \<le> i \<and> nat i + 8 \<le> length (cells (h p))
        then Inr (h(p := (h p)\<lparr>cells :=
               take (nat i) (cells (h p)) @ take 8 v @ drop (nat i + 8) (cells (h p))\<rparr>))
      else Inl OutOfBounds)"

subsection \<open>\<^verbatim>\<open>update_positions_simd\<close>\<close>

text \<open>The body of the loop: four loads, two additions, two stores.\<close>

definition simd_group ::
  "ptr \<Rightarrow> ptr \<Rightarrow> ptr \<Rightarrow> ptr \<Rightarrow> int \<Rightarrow> 'a::plus heap \<Rightarrow> error + 'a heap" where
  "simd_group x y vx vy i h =
     and_then (mm256_load_ps h x i) (\<lambda>px.
     and_then (mm256_load_ps h y i) (\<lambda>py.
     and_then (mm256_load_ps h vx i) (\<lambda>pvx.
     and_then (mm256_load_ps h vy i) (\<lambda>pvy.
     and_then (mm256_store_ps h x i (mm256_add_ps px pvx)) (\<lambda>h1.
     mm256_store_ps h1 y i (mm256_add_ps py pvy))))))"

text \<open>\<^verbatim>\<open>for (int i = 0; i < n; i += 8)\<close>, from the current \<^verbatim>\<open>i\<close> on.\<close>

function simd_loop ::
  "ptr \<Rightarrow> ptr \<Rightarrow> ptr \<Rightarrow> ptr \<Rightarrow> int \<Rightarrow> int \<Rightarrow> 'a::plus heap \<Rightarrow> error + 'a heap" where
  "simd_loop x y vx vy n i h =
     (if i < n then
        (case simd_group x y vx vy i h of
           Inl e \<Rightarrow> Inl e
         | Inr h' \<Rightarrow>
             (case int_add i 8 of
                Inl e \<Rightarrow> Inl e
              | Inr i' \<Rightarrow> simd_loop x y vx vy n i' h'))
      else Inr h)"
  by pat_completeness auto
termination
  by (relation "measure (\<lambda>(x, y, vx, vy, n, i, h). nat (n - i))")
     (auto simp: int_add_def int_ok_def split: if_splits)

declare simd_loop.simps [simp del]

definition update_positions_simd ::
  "ptr \<Rightarrow> ptr \<Rightarrow> ptr \<Rightarrow> ptr \<Rightarrow> int \<Rightarrow> 'a::plus heap \<Rightarrow> error + 'a heap" where
  "update_positions_simd x y vx vy n h = simd_loop x y vx vy n 0 h"

subsection \<open>\<^verbatim>\<open>update_positions_baseline\<close>\<close>

text \<open>The body: \<^verbatim>\<open>x[i] += vx[i]; y[i] += vy[i];\<close>\<close>

definition positions_elem ::
  "ptr \<Rightarrow> ptr \<Rightarrow> ptr \<Rightarrow> ptr \<Rightarrow> int \<Rightarrow> 'a::plus heap \<Rightarrow> error + 'a heap" where
  "positions_elem x y vx vy i h =
     and_then (load h x i) (\<lambda>xi.
     and_then (load h vx i) (\<lambda>vxi.
     and_then (store h x i (xi + vxi)) (\<lambda>h1.
     and_then (load h1 y i) (\<lambda>yi.
     and_then (load h1 vy i) (\<lambda>vyi.
     store h1 y i (yi + vyi))))))"

text \<open>
  \<^verbatim>\<open>for (int i = 0; i < n; ++i)\<close>: the increment cannot overflow, since \<^verbatim>\<open>i < n\<close>
  and \<^verbatim>\<open>n\<close> is an \<^verbatim>\<open>int\<close>.
\<close>

function positions_loop ::
  "ptr \<Rightarrow> ptr \<Rightarrow> ptr \<Rightarrow> ptr \<Rightarrow> int \<Rightarrow> int \<Rightarrow> 'a::plus heap \<Rightarrow> error + 'a heap" where
  "positions_loop x y vx vy n i h =
     (if i < n then
        (case positions_elem x y vx vy i h of
           Inl e \<Rightarrow> Inl e
         | Inr h' \<Rightarrow> positions_loop x y vx vy n (i + 1) h')
      else Inr h)"
  by pat_completeness auto
termination
  by (relation "measure (\<lambda>(x, y, vx, vy, n, i, h). nat (n - i))") auto

declare positions_loop.simps [simp del]

definition update_positions_baseline ::
  "ptr \<Rightarrow> ptr \<Rightarrow> ptr \<Rightarrow> ptr \<Rightarrow> int \<Rightarrow> 'a::plus heap \<Rightarrow> error + 'a heap" where
  "update_positions_baseline x y vx vy n h = positions_loop x y vx vy n 0 h"

section \<open>Population Counter\<close>

text \<open>
  The build configuration: whether the compiler predefines \<^verbatim>\<open>__x86_64__\<close>, and whether
  the build defines \<^verbatim>\<open>USE_X86_ASM\<close>.
\<close>

record target =
  x86_64 :: bool
  USE_X86_ASM :: bool

text \<open>
  Modelled from the spec: the compiler builtin \<^verbatim>\<open>__builtin_popcountll\<close> is not code of
  the repository. It is the portable count of the spec, "the number of bits set to 1 in a
  fixed-width integer": the number of positions below 64 at which the bit is set.
\<close>

definition builtin_popcountll :: "64 word \<Rightarrow> int" where
  "builtin_popcountll n = int (length (filter (bit n) [0..<64]))"

text \<open>
  Modelled from the spec: the instruction \<^verbatim>\<open>popcnt\<close> of the inline assembly is not code
  of the repository. It is the instruction-based count of the spec: it adds up, for every
  bit position of its source operand, the operand shifted right by the position and masked
  to its lowest bit, and writes the sum to its destination operand. The instruction has one
  operand size: with a destination register and a source register of different widths
  there is no such instruction, and the statement does not assemble.
\<close>

definition popcnt :: "nat \<Rightarrow> nat \<Rightarrow> 64 word \<Rightarrow> error + int" where
  "popcnt dst_bits src_bits n =
     (if dst_bits \<noteq> src_bits then Inl NotBuilt
      else Inr (\<Sum>i\<leftarrow>[0..<src_bits]. uint (drop_bit i n AND 1)))"

text \<open>
  \<^verbatim>\<open>#ifdef USE_X86_ASM\<close> selects the assembly, \<^verbatim>\<open>#else\<close> the builtin. The assembly
  is \<^verbatim>\<open>popcnt %1, %0\<close> with \<^verbatim>\<open>"=r" (count)\<close> as \<^verbatim>\<open>%0\<close> and \<^verbatim>\<open>"r" (n)\<close> as
  \<^verbatim>\<open>%1\<close>: \<^verbatim>\<open>count\<close> is an \<^verbatim>\<open>int\<close> and gets a register of 32 bits, \<^verbatim>\<open>n\<close> is a
  \<^verbatim>\<open>uint64_t\<close> and gets one of 64 bits.
\<close>

definition count_set_bits :: "target \<Rightarrow> 64 word \<Rightarrow> error + int" where
  "count_set_bits t n =
     (if USE_X86_ASM t then popcnt 32 64 n else Inr (builtin_popcountll n))"

section \<open>Matrix Transposer\<close>

text \<open>The index \<^verbatim>\<open>a * n + b\<close>, computed in \<^verbatim>\<open>int\<close>.\<close>

definition index2 :: "int \<Rightarrow> int \<Rightarrow> int \<Rightarrow> error + int" where
  "index2 a n b = and_then (int_mul a n) (\<lambda>t. int_add t b)"

text \<open>The statement both transposers run: \<^verbatim>\<open>dst[jj * n + ii] = src[ii * n + jj];\<close>\<close>

definition transpose_elem :: "ptr \<Rightarrow> ptr \<Rightarrow> int \<Rightarrow> int \<Rightarrow> int \<Rightarrow> 'a heap \<Rightarrow> error + 'a heap" where
  "transpose_elem src dst n ii jj h =
     and_then (index2 ii n jj) (\<lambda>ks.
     and_then (load h src ks) (\<lambda>v.
     and_then (index2 jj n ii) (\<lambda>kd.
     store h dst kd v)))"

subsection \<open>\<^verbatim>\<open>matrix_transpose_baseline\<close>\<close>

text \<open>\<^verbatim>\<open>for (int j = 0; j < n; ++j)\<close> in row \<^verbatim>\<open>i\<close>, from the current \<^verbatim>\<open>j\<close> on.\<close>

function baseline_row :: "ptr \<Rightarrow> ptr \<Rightarrow> int \<Rightarrow> int \<Rightarrow> int \<Rightarrow> 'a heap \<Rightarrow> error + 'a heap" where
  "baseline_row src dst n i j h =
     (if j < n then
        (case transpose_elem src dst n i j h of
           Inl e \<Rightarrow> Inl e
         | Inr h' \<Rightarrow> baseline_row src dst n i (j + 1) h')
      else Inr h)"
  by pat_completeness auto
termination
  by (relation "measure (\<lambda>(src, dst, n, i, j, h). nat (n - j))") auto

declare baseline_row.simps [simp del]

text \<open>\<^verbatim>\<open>for (int i = 0; i < n; ++i)\<close>, from the current \<^verbatim>\<open>i\<close> on.\<close>

function baseline_rows :: "ptr \<Rightarrow> ptr \<Rightarrow> int \<Rightarrow> int \<Rightarrow> 'a heap \<Rightarrow> error + 'a heap" where
  "baseline_rows src dst n i h =
     (if i < n then
        (case baseline_row src dst n i 0 h of
           Inl e \<Rightarrow> Inl e
         | Inr h' \<Rightarrow> baseline_rows src dst n (i + 1) h')
      else Inr h)"
  by pat_completeness auto
termination
  by (relation "measure (\<lambda>(src, dst, n, i, h). nat (n - i))") auto

declare baseline_rows.simps [simp del]

definition matrix_transpose_baseline :: "ptr \<Rightarrow> ptr \<Rightarrow> int \<Rightarrow> 'a heap \<Rightarrow> error + 'a heap" where
  "matrix_transpose_baseline src dst n h = baseline_rows src dst n 0 h"

subsection \<open>\<^verbatim>\<open>matrix_transpose_cache_optimized\<close>\<close>

text \<open>\<^verbatim>\<open>const int block = 64 / sizeof(float);\<close> with \<^verbatim>\<open>sizeof(float) = 4\<close>.\<close>

definition block :: int where
  "block = 64 div 4"

text \<open>
  \<^verbatim>\<open>_mm_prefetch((char*)&src[i * n + j + block], _MM_HINT_T0)\<close>: the index is computed
  in \<^verbatim>\<open>int\<close>. The address is only a hint to the cache: in an edge tile it lies past
  the end of the source, and the instruction takes any address, reads and writes no cell
  and cannot fault.
\<close>

definition mm_prefetch :: "ptr \<Rightarrow> int \<Rightarrow> int \<Rightarrow> int \<Rightarrow> 'a heap \<Rightarrow> error + 'a heap" where
  "mm_prefetch src n i j h =
     and_then (index2 i n j) (\<lambda>k.
     and_then (int_add k block) (\<lambda>a. Inr h))"

text \<open>
  \<^verbatim>\<open>for (int jj = j; jj < j + block && jj < n; ++jj)\<close> in row \<^verbatim>\<open>ii\<close>, from the current
  \<^verbatim>\<open>jj\<close> on; the condition computes \<^verbatim>\<open>j + block\<close> every time it is tested.
\<close>

function tile_row :: "ptr \<Rightarrow> ptr \<Rightarrow> int \<Rightarrow> int \<Rightarrow> int \<Rightarrow> int \<Rightarrow> 'a heap \<Rightarrow> error + 'a heap" where
  "tile_row src dst n j ii jj h =
     (case int_add j block of
        Inl e \<Rightarrow> Inl e
      | Inr jend \<Rightarrow>
          (if jj < jend \<and> jj < n then
             (case transpose_elem src dst n ii jj h of
                Inl e \<Rightarrow> Inl e
              | Inr h' \<Rightarrow> tile_row src dst n j ii (jj + 1) h')
           else Inr h))"
  by pat_completeness auto
termination
  by (relation "measure (\<lambda>(src, dst, n, j, ii, jj, h). nat (n - jj))") auto

declare tile_row.simps [simp del]

text \<open>\<^verbatim>\<open>for (int ii = i; ii < i + block && ii < n; ++ii)\<close>, from the current \<^verbatim>\<open>ii\<close> on.\<close>

function tile_rows :: "ptr \<Rightarrow> ptr \<Rightarrow> int \<Rightarrow> int \<Rightarrow> int \<Rightarrow> int \<Rightarrow> 'a heap \<Rightarrow> error + 'a heap" where
  "tile_rows src dst n i j ii h =
     (case int_add i block of
        Inl e \<Rightarrow> Inl e
      | Inr iend \<Rightarrow>
          (if ii < iend \<and> ii < n then
             (case tile_row src dst n j ii j h of
                Inl e \<Rightarrow> Inl e
              | Inr h' \<Rightarrow> tile_rows src dst n i j (ii + 1) h')
           else Inr h))"
  by pat_completeness auto
termination
  by (relation "measure (\<lambda>(src, dst, n, i, j, ii, h). nat (n - ii))") auto

declare tile_rows.simps [simp del]

text \<open>The body of the two tile loops: the prefetch, then the tile at \<^verbatim>\<open>(i, j)\<close>.\<close>

definition tile :: "ptr \<Rightarrow> ptr \<Rightarrow> int \<Rightarrow> int \<Rightarrow> int \<Rightarrow> 'a heap \<Rightarrow> error + 'a heap" where
  "tile src dst n i j h =
     and_then (mm_prefetch src n i j h) (\<lambda>h0. tile_rows src dst n i j i h0)"

text \<open>\<^verbatim>\<open>for (int j = 0; j < n; j += block)\<close>, from the current \<^verbatim>\<open>j\<close> on.\<close>

function tiles_row :: "ptr \<Rightarrow> ptr \<Rightarrow> int \<Rightarrow> int \<Rightarrow> int \<Rightarrow> 'a heap \<Rightarrow> error + 'a heap" where
  "tiles_row src dst n i j h =
     (if j < n then
        (case tile src dst n i j h of
           Inl e \<Rightarrow> Inl e
         | Inr h' \<Rightarrow>
             (case int_add j block of
                Inl e \<Rightarrow> Inl e
              | Inr j' \<Rightarrow> tiles_row src dst n i j' h'))
      else Inr h)"
  by pat_completeness auto
termination
  by (relation "measure (\<lambda>(src, dst, n, i, j, h). nat (n - j))")
     (auto simp: int_add_def int_ok_def block_def split: if_splits)

declare tiles_row.simps [simp del]

text \<open>\<^verbatim>\<open>for (int i = 0; i < n; i += block)\<close>, from the current \<^verbatim>\<open>i\<close> on.\<close>

function tiles_rows :: "ptr \<Rightarrow> ptr \<Rightarrow> int \<Rightarrow> int \<Rightarrow> 'a heap \<Rightarrow> error + 'a heap" where
  "tiles_rows src dst n i h =
     (if i < n then
        (case tiles_row src dst n i 0 h of
           Inl e \<Rightarrow> Inl e
         | Inr h' \<Rightarrow>
             (case int_add i block of
                Inl e \<Rightarrow> Inl e
              | Inr i' \<Rightarrow> tiles_rows src dst n i' h'))
      else Inr h)"
  by pat_completeness auto
termination
  by (relation "measure (\<lambda>(src, dst, n, i, h). nat (n - i))")
     (auto simp: int_add_def int_ok_def block_def split: if_splits)

declare tiles_rows.simps [simp del]

definition matrix_transpose_cache_optimized ::
  "ptr \<Rightarrow> ptr \<Rightarrow> int \<Rightarrow> 'a heap \<Rightarrow> error + 'a heap" where
  "matrix_transpose_cache_optimized src dst n h = tiles_rows src dst n 0 h"

section \<open>Block Memory Copier\<close>

type_synonym byte = "8 word"

text \<open>
  Modelled from the spec: the instruction \<^verbatim>\<open>rep movsb\<close> of the inline assembly is not
  code of the repository. It is the bulk copy of the spec, byte for byte: while the count
  in \<^verbatim>\<open>rcx\<close> is not zero it copies the byte at \<^verbatim>\<open>rsi\<close> to \<^verbatim>\<open>rdi\<close>, advances both
  and decrements the count (the direction flag is clear, as the ABI has it). A register
  that points into a buffer is the buffer and the offset reached in it.
\<close>

fun rep_movsb :: "ptr \<Rightarrow> nat \<Rightarrow> ptr \<Rightarrow> nat \<Rightarrow> nat \<Rightarrow> byte heap \<Rightarrow> error + byte heap" where
  "rep_movsb rdi di rsi si 0 h = Inr h"
| "rep_movsb rdi di rsi si (Suc rcx) h =
     (case load h rsi (int si) of
        Inl e \<Rightarrow> Inl e
      | Inr b \<Rightarrow>
          (case store h rdi (int di) b of
             Inl e \<Rightarrow> Inl e
           | Inr h' \<Rightarrow> rep_movsb rdi (Suc di) rsi (Suc si) rcx h'))"

text \<open>
  Modelled from the spec: \<^verbatim>\<open>std::memcpy\<close> is not code of the repository. It is the
  portable byte copy of the spec: it copies \<^verbatim>\<open>n\<close> bytes from the source region to a
  disjoint destination region, and the result for overlapping regions is undefined.
\<close>

definition std_memcpy :: "ptr \<Rightarrow> ptr \<Rightarrow> nat \<Rightarrow> byte heap \<Rightarrow> error + byte heap" where
  "std_memcpy dst src n h =
     (if n = 0 then Inr h
      else if dst = src then Inl Overlap
      else if n \<le> length (cells (h src)) \<and> n \<le> length (cells (h dst))
        then Inr (h(dst := (h dst)\<lparr>cells := take n (cells (h src)) @ drop n (cells (h dst))\<rparr>))
      else Inl OutOfBounds)"

text \<open>\<^verbatim>\<open>#ifdef __x86_64__\<close> selects the assembly, \<^verbatim>\<open>#else\<close> the library call.\<close>

definition custom_memcpy :: "target \<Rightarrow> ptr \<Rightarrow> ptr \<Rightarrow> nat \<Rightarrow> byte heap \<Rightarrow> error + byte heap" where
  "custom_memcpy t dst src n h =
     (if x86_64 t then rep_movsb dst 0 src 0 n h else std_memcpy dst src n h)"

section \<open>What the source file needs of its build target\<close>

text \<open>
  \<^verbatim>\<open>simulator.cpp\<close> is one translation unit: it is built as a whole, the baseline
  kernels with the specialized ones, or not at all. What it needs of the target is what
  it names and does not define itself: its headers, the intrinsics of \<^verbatim>\<open>immintrin.h\<close>,
  a compiler builtin, a library function, and the instructions of its inline assembly.
\<close>

datatype feature =
    Header string
  | Intrinsic string
  | Builtin string
  | Library string
  | Asm_popcnt nat nat
  | Asm_rep_movsb

text \<open>
  The needs of the file in the order of the source, for a build configuration. The five
  includes of lines 1 to 5 and the intrinsics of \<^verbatim>\<open>update_positions_simd\<close> and of
  \<^verbatim>\<open>matrix_transpose_cache_optimized\<close> are under no condition. \<^verbatim>\<open>count_set_bits\<close>
  needs \<^verbatim>\<open>popcnt\<close> with the operand widths of its assembly under
  \<^verbatim>\<open>#ifdef USE_X86_ASM\<close> and the builtin otherwise; \<^verbatim>\<open>custom_memcpy\<close> needs
  \<^verbatim>\<open>rep movsb\<close> under \<^verbatim>\<open>#ifdef __x86_64__\<close> and \<^verbatim>\<open>std::memcpy\<close> otherwise.
\<close>

definition needs :: "target \<Rightarrow> feature list" where
  "needs t =
     [Header ''simulator.h'', Header ''immintrin.h'', Header ''omp.h'', Header ''vector'',
      Header ''cstring'',
      Intrinsic ''_mm256_load_ps'', Intrinsic ''_mm256_add_ps'', Intrinsic ''_mm256_store_ps'']
     @ (if USE_X86_ASM t then [Asm_popcnt 32 64] else [Builtin ''__builtin_popcountll''])
     @ [Intrinsic ''_mm_prefetch'']
     @ (if x86_64 t then [Asm_rep_movsb] else [Library ''std::memcpy''])"

text \<open>
  Modelled from the spec: the compiler and the assembler are not code of the repository.
  "Failing at build time" is what the spec calls it when a kernel does not compile for a
  target. A toolchain is given by what it provides; the file builds when everything it
  needs is provided, a \<^verbatim>\<open>popcnt\<close> being there only for operands of one width. A kernel
  of a file that was not built does not run.
\<close>

type_synonym toolchain = "feature \<Rightarrow> bool"

definition available :: "toolchain \<Rightarrow> feature \<Rightarrow> bool" where
  "available provides f =
     (provides f \<and> (case f of Asm_popcnt dst_bits src_bits \<Rightarrow> dst_bits = src_bits | _ \<Rightarrow> True))"

definition builds :: "toolchain \<Rightarrow> target \<Rightarrow> bool" where
  "builds provides t = list_all (available provides) (needs t)"

definition on_target :: "toolchain \<Rightarrow> target \<Rightarrow> error + 'a \<Rightarrow> error + 'a" where
  "on_target provides t k = (if builds provides t then k else Inl NotBuilt)"

section \<open>Valid inputs and results in closed form\<close>

text \<open>
  The buffers of a position update: four different buffers of one length, each at an
  address that is a multiple of 32 (as \<^verbatim>\<open>aligned_alloc(32, ...)\<close> gives them).
\<close>

definition position_buffers :: "ptr \<Rightarrow> ptr \<Rightarrow> ptr \<Rightarrow> ptr \<Rightarrow> nat \<Rightarrow> 'a heap \<Rightarrow> bool" where
  "position_buffers x y vx vy len h =
     (distinct [x, y, vx, vy] \<and>
      (\<forall>p \<in> set [x, y, vx, vy]. length (cells (h p)) = len \<and> base (h p) mod 32 = 0))"

text \<open>
  The buffers of a transposition: a source and a different destination, each with room
  for an \<open>n \<times> n\<close> matrix.
\<close>

definition matrix_buffers :: "ptr \<Rightarrow> ptr \<Rightarrow> int \<Rightarrow> 'a heap \<Rightarrow> bool" where
  "matrix_buffers src dst n h =
     (src \<noteq> dst \<and> nat (n * n) \<le> length (cells (h src)) \<and> nat (n * n) \<le> length (cells (h dst)))"

text \<open>
  The heap after the position update of the elements in \<open>S\<close>, whatever the order:
  \<open>x[k] + vx[k]\<close> and \<open>y[k] + vy[k]\<close> at every \<open>k\<close> in \<open>S\<close>, the old cells elsewhere.
  A set of group starts stands for the elements of its groups of eight.
\<close>

definition advanced :: "int set \<Rightarrow> 'a::plus list \<Rightarrow> 'a list \<Rightarrow> 'a list" where
  "advanced S c v = map (\<lambda>k. if int k \<in> S then c ! k + v ! k else c ! k) [0..<length c]"

definition pos_result ::
  "ptr \<Rightarrow> ptr \<Rightarrow> ptr \<Rightarrow> ptr \<Rightarrow> int set \<Rightarrow> 'a::plus heap \<Rightarrow> 'a heap" where
  "pos_result x y vx vy S h =
     h(x := (h x)\<lparr>cells := advanced S (cells (h x)) (cells (h vx))\<rparr>,
       y := (h y)\<lparr>cells := advanced S (cells (h y)) (cells (h vy))\<rparr>)"

definition groups :: "int set \<Rightarrow> int set" where
  "groups T = (\<Union>g\<in>T. {g..g + 7})"

text \<open>
  The heap after the transposition of the elements in \<open>E\<close>, whatever the order: the
  destination cell \<open>jj * n + ii\<close> holds the source cell \<open>ii * n + jj\<close> for every
  \<open>(ii, jj)\<close> in \<open>E\<close>. The index space of the matrix is \<open>square n\<close>; a tile at
  \<open>(i, j)\<close> covers \<open>tile_elems n i j\<close>, clamped to \<open>n\<close>; the tiles start at the
  multiples of \<open>block\<close>.
\<close>

definition transposed :: "int \<Rightarrow> (int \<times> int) set \<Rightarrow> 'a list \<Rightarrow> 'a list \<Rightarrow> 'a list" where
  "transposed n E s d =
     map (\<lambda>k. if (int k mod n, int k div n) \<in> E
               then s ! nat ((int k mod n) * n + int k div n) else d ! k) [0..<length d]"

definition trans_result :: "ptr \<Rightarrow> ptr \<Rightarrow> int \<Rightarrow> (int \<times> int) set \<Rightarrow> 'a heap \<Rightarrow> 'a heap" where
  "trans_result src dst n E h =
     h(dst := (h dst)\<lparr>cells := transposed n E (cells (h src)) (cells (h dst))\<rparr>)"

definition square :: "int \<Rightarrow> (int \<times> int) set" where
  "square n = {0..<n} \<times> {0..<n}"

definition tile_elems :: "int \<Rightarrow> int \<Rightarrow> int \<Rightarrow> (int \<times> int) set" where
  "tile_elems n i j = {i..<min (i + block) n} \<times> {j..<min (j + block) n}"

definition origins :: "int \<Rightarrow> (int \<times> int) set" where
  "origins n = {i. 0 \<le> i \<and> i < n \<and> block dvd i} \<times> {j. 0 \<le> j \<and> j < n \<and> block dvd j}"

definition covered :: "int \<Rightarrow> (int \<times> int) set \<Rightarrow> (int \<times> int) set" where
  "covered n T = (\<Union>(i, j)\<in>T. tile_elems n i j)"

text \<open>Transposing into a buffer, then transposing that buffer into a second one.\<close>

definition transpose_twice :: "ptr \<Rightarrow> ptr \<Rightarrow> ptr \<Rightarrow> int \<Rightarrow> 'a heap \<Rightarrow> error + 'a heap" where
  "transpose_twice src tmp dst n h =
     and_then (matrix_transpose_baseline src tmp n h) (matrix_transpose_baseline tmp dst n)"

section \<open>The iterations of the parallel loops, access by access\<close>

text \<open>
  Under \<^verbatim>\<open>#pragma omp parallel for\<close> the iterations of a loop are handed to threads that
  run at the same time: a thread executes the loop body of an iteration, and between any
  two of its memory accesses the other threads make theirs. To say which cells an iteration
  reads and writes, and to run iterations interleaved, each loop body is written once more
  as a program: its loads and stores in the order of the source, each load handing the
  value it read to the rest of the body. A scalar access moves one cell, an AVX access the
  eight cells of a \<^verbatim>\<open>__m256\<close>; the arithmetic on the loaded values and on the indices is
  no memory access and sits between the accesses. A memory location is a cell of a buffer.
\<close>

type_synonym cell = "ptr \<times> nat"

datatype 'a prog =
    Done
  | Fault error
  | Load ptr int "'a \<Rightarrow> 'a prog"
  | Store ptr int 'a "'a prog"
  | Load8 ptr int "'a list \<Rightarrow> 'a prog"
  | Store8 ptr int "'a list" "'a prog"

text \<open>
  The next access of a program, made on the heap as it is at that moment, with the loads
  and stores defined above; a finished program stays finished.
\<close>

fun prog_step :: "'a prog \<Rightarrow> 'a heap \<Rightarrow> error + ('a prog \<times> 'a heap)" where
  "prog_step Done h = Inr (Done, h)"
| "prog_step (Fault e) h = Inl e"
| "prog_step (Load p i k) h = and_then (load h p i) (\<lambda>v. Inr (k v, h))"
| "prog_step (Store p i v k) h = and_then (store h p i v) (\<lambda>h'. Inr (k, h'))"
| "prog_step (Load8 p i k) h = and_then (mm256_load_ps h p i) (\<lambda>v. Inr (k v, h))"
| "prog_step (Store8 p i v k) h = and_then (mm256_store_ps h p i v) (\<lambda>h'. Inr (k, h'))"

text \<open>A program run to its end with no other thread in between.\<close>

primrec run_alone :: "'a prog \<Rightarrow> 'a heap \<Rightarrow> error + 'a heap" where
  "run_alone Done h = Inr h"
| "run_alone (Fault e) h = Inl e"
| "run_alone (Load p i k) h = and_then (load h p i) (\<lambda>v. run_alone (k v) h)"
| "run_alone (Store p i v k) h = and_then (store h p i v) (\<lambda>h'. run_alone k h')"
| "run_alone (Load8 p i k) h = and_then (mm256_load_ps h p i) (\<lambda>v. run_alone (k v) h)"
| "run_alone (Store8 p i v k) h = and_then (mm256_store_ps h p i v) (\<lambda>h'. run_alone k h')"

text \<open>One program after the other, as the statements of a loop follow each other.\<close>

primrec then_prog :: "'a prog \<Rightarrow> 'a prog \<Rightarrow> 'a prog" where
  "then_prog Done q = q"
| "then_prog (Fault e) q = Fault e"
| "then_prog (Load p i k) q = Load p i (\<lambda>v. then_prog (k v) q)"
| "then_prog (Store p i v k) q = Store p i v (then_prog k q)"
| "then_prog (Load8 p i k) q = Load8 p i (\<lambda>v. then_prog (k v) q)"
| "then_prog (Store8 p i v k) q = Store8 p i v (then_prog k q)"

text \<open>
  Concurrent execution. The threads are the programs of the iterations, and a schedule
  names, access by access, the thread that makes the next access; the accesses of one
  thread stay in their order, and those of different threads follow each other in any
  order whatever. A schedule may stop before the threads are finished, and may name a
  finished thread, which then does nothing. The first fault ends the run.
\<close>

fun interleave :: "nat list \<Rightarrow> 'a prog list \<Rightarrow> 'a heap \<Rightarrow> error + ('a prog list \<times> 'a heap)" where
  "interleave [] ts h = Inr (ts, h)"
| "interleave (t # sch) ts h =
     (if t < length ts then
        (case prog_step (ts ! t) h of
           Inl e \<Rightarrow> Inl e
         | Inr (p', h') \<Rightarrow> interleave sch (ts[t := p']) h')
      else interleave sch ts h)"

definition all_done :: "'a prog list \<Rightarrow> bool" where
  "all_done ts = (\<forall>p\<in>set ts. p = Done)"

text \<open>
  Footprints. \<open>confined S p h\<close>: started on the heap \<open>h\<close> and run to its end, the program
  \<open>p\<close> makes every one of its accesses at a cell of \<open>S\<close>, and none of them faults. A
  vector that is stored holds its eight lanes.
\<close>

primrec confined :: "cell set \<Rightarrow> 'a prog \<Rightarrow> 'a heap \<Rightarrow> bool" where
  "confined S Done h = True"
| "confined S (Fault e) h = False"
| "confined S (Load p i k) h =
     ((p, nat i) \<in> S \<and>
      (case load h p i of Inl e \<Rightarrow> False | Inr v \<Rightarrow> confined S (k v) h))"
| "confined S (Store p i v k) h =
     ((p, nat i) \<in> S \<and>
      (case store h p i v of Inl e \<Rightarrow> False | Inr h' \<Rightarrow> confined S k h'))"
| "confined S (Load8 p i k) h =
     ((\<forall>l<8. (p, nat i + l) \<in> S) \<and>
      (case mm256_load_ps h p i of Inl e \<Rightarrow> False | Inr v \<Rightarrow> confined S (k v) h))"
| "confined S (Store8 p i v k) h =
     ((\<forall>l<8. (p, nat i + l) \<in> S) \<and> 8 \<le> length v \<and>
      (case mm256_store_ps h p i v of Inl e \<Rightarrow> False | Inr h' \<Rightarrow> confined S k h'))"

text \<open>
  The loop bodies of the position updaters as programs, and the cells of an iteration:
  \<^verbatim>\<open>x[i] += vx[i]; y[i] += vy[i];\<close> reads \<^verbatim>\<open>x[i]\<close> and \<^verbatim>\<open>vx[i]\<close>, writes
  \<^verbatim>\<open>x[i]\<close>, reads \<^verbatim>\<open>y[i]\<close> and \<^verbatim>\<open>vy[i]\<close>, writes \<^verbatim>\<open>y[i]\<close>; the group at \<^verbatim>\<open>i\<close>
  makes its four vector loads, then its two vector stores, on the cells \<^verbatim>\<open>i\<close> to
  \<^verbatim>\<open>i + 7\<close> of the four arrays.
\<close>

definition positions_prog :: "ptr \<Rightarrow> ptr \<Rightarrow> ptr \<Rightarrow> ptr \<Rightarrow> int \<Rightarrow> 'a::plus prog" where
  "positions_prog x y vx vy i =
     Load x i (\<lambda>xi.
     Load vx i (\<lambda>vxi.
     Store x i (xi + vxi) (
     Load y i (\<lambda>yi.
     Load vy i (\<lambda>vyi.
     Store y i (yi + vyi) Done)))))"

definition positions_cells :: "ptr \<Rightarrow> ptr \<Rightarrow> ptr \<Rightarrow> ptr \<Rightarrow> int \<Rightarrow> cell set" where
  "positions_cells x y vx vy i = {(x, nat i), (vx, nat i), (y, nat i), (vy, nat i)}"

definition simd_prog :: "ptr \<Rightarrow> ptr \<Rightarrow> ptr \<Rightarrow> ptr \<Rightarrow> int \<Rightarrow> 'a::plus prog" where
  "simd_prog x y vx vy i =
     Load8 x i (\<lambda>px.
     Load8 y i (\<lambda>py.
     Load8 vx i (\<lambda>pvx.
     Load8 vy i (\<lambda>pvy.
     Store8 x i (mm256_add_ps px pvx) (
     Store8 y i (mm256_add_ps py pvy) Done)))))"

definition simd_cells :: "ptr \<Rightarrow> ptr \<Rightarrow> ptr \<Rightarrow> ptr \<Rightarrow> int \<Rightarrow> cell set" where
  "simd_cells x y vx vy i = {x, y, vx, vy} \<times> {nat i..<nat i + 8}"

text \<open>
  \<^verbatim>\<open>dst[jj * n + ii] = src[ii * n + jj];\<close> as a program: the source index, the load, the
  destination index, the store. Its cells are the source cell it reads and the destination
  cell it writes.
\<close>

definition elem_prog :: "ptr \<Rightarrow> ptr \<Rightarrow> int \<Rightarrow> int \<Rightarrow> int \<Rightarrow> 'a prog" where
  "elem_prog src dst n ii jj =
     (case index2 ii n jj of
        Inl e \<Rightarrow> Fault e
      | Inr ks \<Rightarrow>
          Load src ks (\<lambda>v.
            (case index2 jj n ii of
               Inl e \<Rightarrow> Fault e
             | Inr kd \<Rightarrow> Store dst kd v Done)))"

definition elem_cells :: "ptr \<Rightarrow> ptr \<Rightarrow> int \<Rightarrow> int \<Rightarrow> int \<Rightarrow> cell set" where
  "elem_cells src dst n ii jj = {(src, nat (ii * n + jj)), (dst, nat (jj * n + ii))}"

text \<open>
  The body of the two tile loops as a program: the two inner loops of the tile at
  \<^verbatim>\<open>(i, j)\<close>, with the conditions of the source, after the index arithmetic of the
  prefetch, which accesses no cell. The cells of a tile are those of its elements.
\<close>

function tile_row_prog :: "ptr \<Rightarrow> ptr \<Rightarrow> int \<Rightarrow> int \<Rightarrow> int \<Rightarrow> int \<Rightarrow> 'a prog" where
  "tile_row_prog src dst n j ii jj =
     (case int_add j block of
        Inl e \<Rightarrow> Fault e
      | Inr jend \<Rightarrow>
          (if jj < jend \<and> jj < n then
             then_prog (elem_prog src dst n ii jj) (tile_row_prog src dst n j ii (jj + 1))
           else Done))"
  by pat_completeness auto
termination
  by (relation "measure (\<lambda>(src, dst, n, j, ii, jj). nat (n - jj))") auto

declare tile_row_prog.simps [simp del]

function tile_rows_prog :: "ptr \<Rightarrow> ptr \<Rightarrow> int \<Rightarrow> int \<Rightarrow> int \<Rightarrow> int \<Rightarrow> 'a prog" where
  "tile_rows_prog src dst n i j ii =
     (case int_add i block of
        Inl e \<Rightarrow> Fault e
      | Inr iend \<Rightarrow>
          (if ii < iend \<and> ii < n then
             then_prog (tile_row_prog src dst n j ii j) (tile_rows_prog src dst n i j (ii + 1))
           else Done))"
  by pat_completeness auto
termination
  by (relation "measure (\<lambda>(src, dst, n, i, j, ii). nat (n - ii))") auto

declare tile_rows_prog.simps [simp del]

definition tile_prog :: "ptr \<Rightarrow> ptr \<Rightarrow> int \<Rightarrow> int \<Rightarrow> int \<Rightarrow> 'a prog" where
  "tile_prog src dst n i j =
     (case and_then (index2 i n j) (\<lambda>k. int_add k block) of
        Inl e \<Rightarrow> Fault e
      | Inr a \<Rightarrow> tile_rows_prog src dst n i j i)"

definition tile_cells :: "ptr \<Rightarrow> ptr \<Rightarrow> int \<Rightarrow> int \<Rightarrow> int \<Rightarrow> cell set" where
  "tile_cells src dst n i j = (\<Union>(ii, jj)\<in>tile_elems n i j. elem_cells src dst n ii jj)"

text \<open>
  What it is for the iterations \<open>its\<close> of a parallel loop to be independent on the heap
  \<open>h\<close>, with \<open>r\<close> the heap the loop leaves. \<open>body\<close> is the loop body as the kernel runs
  it, \<open>prog\<close> the body as a program, \<open>fp\<close> the cells of an iteration:

    \<^item> the program of an iteration, run alone, is the loop body, on every heap;
    \<^item> the cells of two different iterations are disjoint;
    \<^item> every iteration makes all its loads and stores at its own cells;
    \<^item> whatever the schedule, the interleaved run of the iterations does not fault, at
      every moment of it what is left of each iteration stays at the cells of that
      iteration, and once all iterations are finished the heap is \<open>r\<close>;
    \<^item> some schedule finishes all iterations;
    \<^item> the iterations run whole, one after the other in any order, leave \<open>r\<close> as well.
\<close>

definition independent ::
  "('i \<Rightarrow> 'a heap \<Rightarrow> error + 'a heap) \<Rightarrow> ('i \<Rightarrow> 'a prog) \<Rightarrow> ('i \<Rightarrow> cell set) \<Rightarrow> 'i list
     \<Rightarrow> 'a heap \<Rightarrow> 'a heap \<Rightarrow> bool" where
  "independent body prog fp its h r =
     ((\<forall>i g. run_alone (prog i) g = body i g)
      \<and> (\<forall>i\<in>set its. \<forall>j\<in>set its. i \<noteq> j \<longrightarrow> fp i \<inter> fp j = {})
      \<and> (\<forall>i\<in>set its. confined (fp i) (prog i) h)
      \<and> (\<forall>sch. \<exists>ts' h'. interleave sch (map prog its) h = Inr (ts', h')
             \<and> length ts' = length its
             \<and> (\<forall>t<length its. confined (fp (its ! t)) (ts' ! t) h')
             \<and> (all_done ts' \<longrightarrow> h' = r))
      \<and> (\<exists>sch ts'. interleave sch (map prog its) h = Inr (ts', r) \<and> all_done ts')
      \<and> (\<forall>is. mset is = mset its \<longrightarrow> run_order body is h = Inr r))"

text \<open>
  For the proofs: the content of a cell; two heaps with the same buffers, cell contents
  apart; two such heaps with the same contents at the cells of \<open>S\<close>; the heap a program
  leaves when run alone; and what holds at every moment of an interleaved run that started
  with the threads \<open>ts0\<close> on the heap \<open>h0\<close>, thread \<open>t\<close> working at the cells \<open>S t\<close>:
  every thread still stays at its cells; run alone from here, a thread leaves at its cells
  what it leaves there run alone from the start; and the cells of no thread are as they
  were.
\<close>

definition cell_at :: "'a heap \<Rightarrow> cell \<Rightarrow> 'a" where
  "cell_at h c = cells (h (fst c)) ! snd c"

definition same_shape :: "'a heap \<Rightarrow> 'a heap \<Rightarrow> bool" where
  "same_shape h g =
     (\<forall>p. base (g p) = base (h p) \<and> length (cells (g p)) = length (cells (h p)))"

definition agree :: "cell set \<Rightarrow> 'a heap \<Rightarrow> 'a heap \<Rightarrow> bool" where
  "agree S h g = (same_shape h g \<and> (\<forall>c\<in>S. cell_at g c = cell_at h c))"

definition final :: "'a prog \<Rightarrow> 'a heap \<Rightarrow> 'a heap" where
  "final p h = (case run_alone p h of Inr r \<Rightarrow> r | Inl e \<Rightarrow> h)"

definition isolated ::
  "(nat \<Rightarrow> cell set) \<Rightarrow> 'a prog list \<Rightarrow> 'a heap \<Rightarrow> 'a prog list \<Rightarrow> 'a heap \<Rightarrow> bool" where
  "isolated S ts0 h0 ts h =
     (length ts = length ts0 \<and> same_shape h0 h
      \<and> (\<forall>t<length ts0. confined (S t) (ts ! t) h
            \<and> agree (S t) (final (ts0 ! t) h0) (final (ts ! t) h))
      \<and> (\<forall>c. (\<forall>t<length ts0. c \<notin> S t) \<longrightarrow> cell_at h c = cell_at h0 c))"

section \<open>Example inputs\<close>

text \<open>
  Particles: buffers 0 and 1 hold the positions, 2 and 3 the velocities, all 32-byte
  aligned. \<open>eight_particles_advanced\<close> is \<open>eight_particles\<close> one step later, and
  \<open>three_particles_advanced\<close> is \<open>three_particles\<close> one step later.
\<close>

definition eight_particles :: "int heap" where
  "eight_particles p =
     \<lparr>base = 32 * p,
      cells = (if p < 2 then [0, 1, 2, 3, 4, 5, 6, 7]
               else if p < 4 then [1, 1, 1, 1, 1, 1, 1, 1] else [])\<rparr>"

definition eight_particles_advanced :: "int heap" where
  "eight_particles_advanced =
     eight_particles
       (0 := \<lparr>base = 0, cells = [1, 2, 3, 4, 5, 6, 7, 8]\<rparr>,
        1 := \<lparr>base = 32, cells = [1, 2, 3, 4, 5, 6, 7, 8]\<rparr>)"

definition three_particles :: "int heap" where
  "three_particles p =
     \<lparr>base = 32 * p,
      cells = (if p < 2 then [0, 1, 2] else if p < 4 then [1, 1, 1] else [])\<rparr>"

definition one_particle :: "int heap" where
  "one_particle p = \<lparr>base = 32 * p, cells = (if p < 4 then [1] else [])\<rparr>"

definition three_particles_advanced :: "int heap" where
  "three_particles_advanced =
     three_particles
       (0 := \<lparr>base = 0, cells = [1, 2, 3]\<rparr>,
        1 := \<lparr>base = 32, cells = [1, 2, 3]\<rparr>)"

text \<open>
  Matrices. In \<open>small_matrices len\<close> the buffers 0, 1 and 2 hold the cells
  \<open>0, 1, ..., len - 1\<close>. In \<open>huge_matrices\<close> every buffer holds \<open>46341 * 46341\<close> cells, a
  matrix of 8.6 GB of floats. \<open>four_by_four\<close> is the matrix \<open>src[i*4+j] = i*4+j\<close> of the
  spec's scenario in buffer 0, with a zeroed destination in buffer 1.
\<close>

definition small_matrices :: "nat \<Rightarrow> int heap" where
  "small_matrices len p = \<lparr>base = 0, cells = (if p < 3 then map int [0..<len] else [])\<rparr>"

definition huge_matrices :: "int heap" where
  "huge_matrices p = \<lparr>base = 0, cells = replicate (nat (46341 * 46341)) 0\<rparr>"

definition four_by_four :: "int heap" where
  "four_by_four p =
     \<lparr>base = 0,
      cells = (if p = 0 then [0, 1, 2, 3, 4, 5, 6, 7, 8, 9, 10, 11, 12, 13, 14, 15]
               else if p = 1 then [0, 0, 0, 0, 0, 0, 0, 0, 0, 0, 0, 0, 0, 0, 0, 0] else [])\<rparr>"

definition four_by_four_transposed :: "int heap" where
  "four_by_four_transposed =
     four_by_four
       (1 := \<lparr>base = 0, cells = [0, 4, 8, 12, 1, 5, 9, 13, 2, 6, 10, 14, 3, 7, 11, 15]\<rparr>)"

text \<open>Bytes to copy.\<close>

definition three_bytes :: "byte heap" where
  "three_bytes p =
     \<lparr>base = 0, cells = (if p = 0 then [1, 2, 3] else if p = 1 then [7, 8, 9] else [])\<rparr>"

text \<open>
  Two toolchains. One for 64-bit ARM: it has every header of the file but
  \<^verbatim>\<open>immintrin.h\<close>, none of the x86 intrinsics and none of the x86 instructions. One for
  x86 with AVX and OpenMP enabled: it has everything the file names.
\<close>

definition aarch64_toolchain :: toolchain where
  "aarch64_toolchain f =
     (case f of
        Header h \<Rightarrow> h \<noteq> ''immintrin.h''
      | Intrinsic i \<Rightarrow> False
      | Builtin b \<Rightarrow> True
      | Library l \<Rightarrow> True
      | Asm_popcnt dst_bits src_bits \<Rightarrow> False
      | Asm_rep_movsb \<Rightarrow> False)"

definition x86_avx_toolchain :: toolchain where
  "x86_avx_toolchain f = True"

section \<open>The position updaters in closed form\<close>


lemma length_advanced [simp]: "length (advanced S c v) = length c"
  by (simp add: advanced_def)

lemma nth_advanced:
  "k < length c \<Longrightarrow> advanced S c v ! k = (if int k \<in> S then c ! k + v ! k else c ! k)"
  by (simp add: advanced_def)

lemma advanced_empty [simp]: "advanced {} c v = c"
  by (rule nth_equalityI) (simp_all add: nth_advanced)

lemma advanced_insert:
  assumes "0 \<le> i" "nat i < length c" "i \<notin> S"
  shows "(advanced S c v)[nat i := advanced S c v ! nat i + v ! nat i] = advanced (insert i S) c v"
  using assms by (intro nth_equalityI) (auto simp: nth_advanced nth_list_update)

lemma pos_result_empty [simp]: "pos_result x y vx vy {} h = h"
  by (simp add: pos_result_def)

lemma run_order_closed:
  assumes step: "\<And>i S. i \<in> A \<Longrightarrow> S \<subseteq> A \<Longrightarrow> i \<notin> S \<Longrightarrow> body i (F S) = Inr (F (insert i S))"
    and "distinct is" "set is \<subseteq> A" "S \<subseteq> A" "S \<inter> set is = {}"
  shows "run_order body is (F S) = Inr (F (S \<union> set is))"
  using assms(2-)
proof (induction "is" arbitrary: S)
  case Nil
  then show ?case by simp
next
  case (Cons i "is")
  have "body i (F S) = Inr (F (insert i S))"
    using Cons.prems by (intro step) auto
  moreover have "run_order body is (F (insert i S)) = Inr (F (insert i S \<union> set is))"
    using Cons.prems by (intro Cons.IH) auto
  ultimately show ?case by simp
qed

lemma positions_elem_step:
  assumes d: "distinct [x, y, vx, vy]"
    and i: "0 \<le> i" "i \<notin> S"
    and len: "nat i < length (cells (h x))" "nat i < length (cells (h y))"
             "nat i < length (cells (h vx))" "nat i < length (cells (h vy))"
  shows "positions_elem x y vx vy i (pos_result x y vx vy S h)
         = Inr (pos_result x y vx vy (insert i S) h)"
proof -
  let ?H = "pos_result x y vx vy S h"
  have cx: "cells (?H x) = advanced S (cells (h x)) (cells (h vx))"
   and cy: "cells (?H y) = advanced S (cells (h y)) (cells (h vy))"
   and cvx: "?H vx = h vx" and cvy: "?H vy = h vy"
    using d by (auto simp: pos_result_def)
  show ?thesis
    using d i len
    apply (simp add: positions_elem_def load_def store_def cx cy cvx cvy)
    apply (simp add: pos_result_def advanced_insert fun_upd_twist)
    done
qed


lemma pos_result_base [simp]: "base (pos_result x y vx vy S h p) = base (h p)"
  by (simp add: pos_result_def)

lemma pos_result_length [simp]:
  "length (cells (pos_result x y vx vy S h p)) = length (cells (h p))"
  by (simp add: pos_result_def)

lemma pos_result_other: "p \<noteq> x \<Longrightarrow> p \<noteq> y \<Longrightarrow> pos_result x y vx vy S h p = h p"
  by (simp add: pos_result_def)

lemma advanced_group:
  assumes "0 \<le> i" "nat i + 8 \<le> length c" "nat i + 8 \<le> length v" "S \<inter> {i..i + 7} = {}"
  shows "take (nat i) (advanced S c v)
           @ take 8 (mm256_add_ps (take 8 (drop (nat i) (advanced S c v))) (take 8 (drop (nat i) v)))
           @ drop (nat i + 8) (advanced S c v)
         = advanced (S \<union> {i..i + 7}) c v"
proof (rule nth_equalityI)
  show "length (take (nat i) (advanced S c v)
           @ take 8 (mm256_add_ps (take 8 (drop (nat i) (advanced S c v))) (take 8 (drop (nat i) v)))
           @ drop (nat i + 8) (advanced S c v)) = length (advanced (S \<union> {i..i + 7}) c v)"
    using assms by (simp add: mm256_add_ps_def)
next
  fix k
  assume "k < length (take (nat i) (advanced S c v)
           @ take 8 (mm256_add_ps (take 8 (drop (nat i) (advanced S c v))) (take 8 (drop (nat i) v)))
           @ drop (nat i + 8) (advanced S c v))"
  then have k: "k < length c"
    using assms by (simp add: mm256_add_ps_def)
  have notS: "\<And>j. i \<le> j \<Longrightarrow> j \<le> i + 7 \<Longrightarrow> j \<notin> S"
    using assms(4) by auto
  consider "k < nat i" | "nat i \<le> k" "k < nat i + 8" | "nat i + 8 \<le> k" by linarith
  then show "(take (nat i) (advanced S c v)
           @ take 8 (mm256_add_ps (take 8 (drop (nat i) (advanced S c v))) (take 8 (drop (nat i) v)))
           @ drop (nat i + 8) (advanced S c v)) ! k = advanced (S \<union> {i..i + 7}) c v ! k"
  proof cases
    case 1
    then have "\<not> (i \<le> int k)" using assms(1) by linarith
    then show ?thesis using 1 assms k by (simp add: nth_append nth_advanced)
  next
    case 2
    then have r: "i \<le> int k" "int k \<le> i + 7" "k - nat i < 8"
      using assms(1) by linarith+
    then have "int k \<notin> S" using notS[of "int k"] by simp
    then show ?thesis using 2 r assms k
      by (simp add: nth_append nth_advanced mm256_add_ps_def)
  next
    case 3
    then have "\<not> (int k \<le> i + 7)" "\<not> k - nat i < 8" "\<not> k < nat i"
      using assms(1) by linarith+
    then show ?thesis using 3 assms k
      by (simp add: nth_append nth_advanced mm256_add_ps_def)
  qed
qed

lemma simd_group_step:
  assumes d: "distinct [x, y, vx, vy]"
    and i: "0 \<le> i" "8 dvd i" "S \<inter> {i..i + 7} = {}"
    and al: "\<forall>p \<in> set [x, y, vx, vy]. base (h p) mod 32 = 0 \<and> nat i + 8 \<le> length (cells (h p))"
  shows "simd_group x y vx vy i (pos_result x y vx vy S h)
         = Inr (pos_result x y vx vy (S \<union> {i..i + 7}) h)"
proof -
  let ?H = "pos_result x y vx vy S h"
  have cx: "cells (?H x) = advanced S (cells (h x)) (cells (h vx))"
   and cy: "cells (?H y) = advanced S (cells (h y)) (cells (h vy))"
   and cvx: "?H vx = h vx" and cvy: "?H vy = h vy"
    using d by (auto simp: pos_result_def)
  have al32: "\<And>H p. base (H p) mod 32 = 0 \<Longrightarrow> aligned32 H p i"
    using i(2) by (auto simp: aligned32_def dvd_def)
  show ?thesis
    using d i al
    apply (simp add: simd_group_def mm256_load_ps_def mm256_store_ps_def al32 cx cy cvx cvy)
    apply (simp add: pos_result_def advanced_group fun_upd_twist)
    done
qed


lemma iterations_mem:
  "g \<in> set (iterations i n s) \<longleftrightarrow> 0 < s \<and> i \<le> g \<and> g < n \<and> s dvd (g - i)"
proof (induction i n s rule: iterations.induct)
  case (1 i n s)
  show ?case
  proof (cases "i < n \<and> 0 < s")
    case True
    have "(g = i \<or> (i + s \<le> g \<and> s dvd (g - (i + s)))) \<longleftrightarrow> (i \<le> g \<and> s dvd (g - i))"
    proof
      assume "g = i \<or> (i + s \<le> g \<and> s dvd (g - (i + s)))"
      then show "i \<le> g \<and> s dvd (g - i)"
      proof
        assume "g = i" then show ?thesis by simp
      next
        assume a: "i + s \<le> g \<and> s dvd (g - (i + s))"
        then have "s dvd (g - (i + s)) + s" by (intro dvd_add) auto
        moreover have "(g - (i + s)) + s = g - i" by simp
        ultimately have "s dvd g - i" by simp
        then show ?thesis using a True by auto
      qed
    next
      assume a: "i \<le> g \<and> s dvd (g - i)"
      then obtain k where k: "g - i = s * k" by (auto simp: dvd_def)
      show "g = i \<or> (i + s \<le> g \<and> s dvd (g - (i + s)))"
      proof (cases "k \<le> 0")
        case True
        then have "s * k \<le> 0" using \<open>i < n \<and> 0 < s\<close> by (simp add: mult_le_0_iff)
        then show ?thesis using k a by simp
      next
        case False
        then have "1 \<le> k" by simp
        then have "s * 1 \<le> s * k" using \<open>i < n \<and> 0 < s\<close> by (intro mult_left_mono) auto
        then have "s \<le> g - i" unfolding k by simp
        then have le: "i + s \<le> g" by simp
        have "g - (i + s) = s * (k - 1)" using k by (simp add: algebra_simps)
        then have "s dvd (g - (i + s))" by (simp only: dvd_triv_left)
        then show ?thesis using le by blast
      qed
    qed
    then show ?thesis using True 1 by (subst iterations.simps) auto
  next
    case False
    then show ?thesis by (subst iterations.simps) auto
  qed
qed

lemma iterations_distinct: "distinct (iterations i n s)"
proof (induction i n s rule: iterations.induct)
  case (1 i n s)
  show ?case
  proof (cases "i < n \<and> 0 < s")
    case True
    then have "i \<notin> set (iterations (i + s) n s)" by (simp add: iterations_mem)
    then show ?thesis using True 1 by (subst iterations.simps) simp
  next
    case False
    then show ?thesis by (subst iterations.simps) auto
  qed
qed

lemma positions_loop_run:
  "positions_loop x y vx vy n i h
   = run_order (positions_elem x y vx vy) (iterations i n 1) h"
proof (induction x y vx vy n i h rule: positions_loop.induct)
  case (1 x y vx vy n i h)
  show ?case
  proof (cases "i < n")
    case True
    then show ?thesis
      using 1 by (subst positions_loop.simps, subst iterations.simps) (simp split: sum.splits)
  next
    case False
    then show ?thesis by (subst positions_loop.simps, subst iterations.simps) simp
  qed
qed

lemma simd_loop_split:
  assumes "8 dvd i" "8 dvd g" "i \<le> g" "g \<le> n" "g \<le> INT_MAX" "- INT_MAX - 1 \<le> i"
  shows "simd_loop x y vx vy n i h
         = and_then (run_order (simd_group x y vx vy) (iterations i g 8) h)
                    (simd_loop x y vx vy n g)"
  using assms
proof (induction x y vx vy n i h rule: simd_loop.induct)
  case (1 x y vx vy n i h)
  show ?case
  proof (cases "i < g")
    case True
    then have le: "i + 8 \<le> g" using 1(2,3) by presburger
    then have ok: "int_add i 8 = Inr (i + 8)"
      using 1(6,7) by (simp add: int_add_def int_ok_def)
    have unf: "iterations i g 8 = i # iterations (i + 8) g 8"
      using True by (subst iterations.simps) simp
    show ?thesis
    proof (cases "simd_group x y vx vy i h")
      case (Inl e)
      then show ?thesis using True 1(5) by (subst simd_loop.simps) (simp add: unf)
    next
      case (Inr h')
      have "simd_loop x y vx vy n (i + 8) h'
            = and_then (run_order (simd_group x y vx vy) (iterations (i + 8) g 8) h')
                       (simd_loop x y vx vy n g)"
        using True 1(2-) le ok Inr by (intro 1(1)) auto
      then show ?thesis
        using True 1(5) Inr ok by (subst simd_loop.simps) (simp add: unf)
    qed
  next
    case False
    then have "i = g" using 1(4) by simp
    then show ?thesis by (subst iterations.simps) simp
  qed
qed


lemma positions_any_order:
  assumes "position_buffers x y vx vy len h" "nat n \<le> len"
    and "distinct is" "set is \<subseteq> {0..<n}"
  shows "run_order (positions_elem x y vx vy) is h = Inr (pos_result x y vx vy (set is) h)"
proof -
  have d: "distinct [x, y, vx, vy]"
    and len: "length (cells (h x)) = len" "length (cells (h y)) = len"
             "length (cells (h vx)) = len" "length (cells (h vy)) = len"
    using assms(1) by (auto simp: position_buffers_def)
  have "run_order (positions_elem x y vx vy) is (pos_result x y vx vy {} h)
        = Inr (pos_result x y vx vy ({} \<union> set is) h)"
  proof (rule run_order_closed [where A = "{0..<n}"])
    fix i S assume "i \<in> {0..<n}" "S \<subseteq> {0..<n}" "i \<notin> S"
    then show "positions_elem x y vx vy i (pos_result x y vx vy S h)
               = Inr (pos_result x y vx vy (insert i S) h)"
      using d len assms(2) by (intro positions_elem_step) auto
  qed (use assms(3,4) in auto)
  then show ?thesis by simp
qed

lemma positions_baseline_closed:
  assumes "position_buffers x y vx vy len h" "nat n \<le> len"
  shows "update_positions_baseline x y vx vy n h = Inr (pos_result x y vx vy {0..<n} h)"
proof -
  have "set (iterations 0 n 1) = {0..<n}"
    by (auto simp: iterations_mem)
  then show ?thesis
    using positions_any_order [OF assms, of "iterations 0 n 1"]
    by (simp add: update_positions_baseline_def positions_loop_run iterations_distinct)
qed

lemma groups_insert: "groups (insert g T) = groups T \<union> {g..g + 7}"
  by (auto simp: groups_def)

lemma groups_disjoint:
  assumes "\<forall>t\<in>T. 8 dvd t" "8 dvd g" "g \<notin> T"
  shows "groups T \<inter> {g..g + 7} = {}"
proof -
  have "False" if "t \<in> T" "t \<le> k" "k \<le> t + 7" "g \<le> k" "k \<le> g + 7" for t k
  proof -
    have "8 dvd t" "t \<noteq> g" using that(1) assms by auto
    then show False using assms(2) that(2-) by presburger
  qed
  then show ?thesis by (auto simp: groups_def)
qed

lemma groups_all:
  assumes "8 dvd n"
  shows "groups {g. 0 \<le> g \<and> g < n \<and> 8 dvd g} = {0..<n}"
proof -
  have "\<exists>g. 0 \<le> g \<and> g < n \<and> 8 dvd g \<and> g \<le> k \<and> k \<le> g + 7" if "0 \<le> k" "k < n" for k
    using that assms by presburger
  moreover have "k < n" if "g < n" "8 dvd g" "k \<le> g + 7" for g k
    using that assms by presburger
  ultimately show ?thesis by (fastforce simp: groups_def)
qed

lemma simd_any_order:
  assumes "position_buffers x y vx vy len h" "nat g \<le> len" "8 dvd g"
    and "distinct gs" "set gs \<subseteq> {t. 0 \<le> t \<and> t < g \<and> 8 dvd t}"
  shows "run_order (simd_group x y vx vy) gs h
         = Inr (pos_result x y vx vy (groups (set gs)) h)"
proof -
  let ?A = "{t. 0 \<le> t \<and> t < g \<and> 8 dvd t}"
  have d: "distinct [x, y, vx, vy]"
    and al: "\<forall>p \<in> set [x, y, vx, vy]. length (cells (h p)) = len \<and> base (h p) mod 32 = 0"
    using assms(1) by (auto simp: position_buffers_def)
  have "run_order (simd_group x y vx vy) gs (pos_result x y vx vy (groups {}) h)
        = Inr (pos_result x y vx vy (groups ({} \<union> set gs)) h)"
  proof (rule run_order_closed [where A = ?A and F = "\<lambda>T. pos_result x y vx vy (groups T) h"])
    fix i S assume a: "i \<in> ?A" "S \<subseteq> ?A" "i \<notin> S"
    then have "groups S \<inter> {i..i + 7} = {}"
      by (intro groups_disjoint) auto
    moreover have "nat i + 8 \<le> len"
      using a(1) assms(2,3) by (auto simp: dvd_def)
    ultimately show "simd_group x y vx vy i (pos_result x y vx vy (groups S) h)
               = Inr (pos_result x y vx vy (groups (insert i S)) h)"
      unfolding groups_insert using d al a(1) by (intro simd_group_step) auto
  qed (use assms(4,5) in auto)
  then show ?thesis by (simp add: groups_def)
qed

lemma simd_groups_closed:
  assumes "position_buffers x y vx vy len h" "nat g \<le> len" "8 dvd g"
  shows "run_order (simd_group x y vx vy) (iterations 0 g 8) h
         = Inr (pos_result x y vx vy {0..<g} h)"
proof -
  have "set (iterations 0 g 8) = {t. 0 \<le> t \<and> t < g \<and> 8 dvd t}"
    by (auto simp: iterations_mem)
  then show ?thesis
    using simd_any_order [OF assms, of "iterations 0 g 8"]
    by (simp add: iterations_distinct groups_all [OF assms(3)])
qed

lemma positions_simd_closed:
  assumes "position_buffers x y vx vy len h" "nat n \<le> len" "8 dvd n" "n \<le> INT_MAX"
  shows "update_positions_simd x y vx vy n h = Inr (pos_result x y vx vy {0..<n} h)"
proof (cases "0 \<le> n")
  case True
  have "simd_loop x y vx vy n 0 h
        = and_then (run_order (simd_group x y vx vy) (iterations 0 n 8) h)
                   (simd_loop x y vx vy n n)"
    using True assms(3,4) by (intro simd_loop_split) (auto simp: INT_MAX_def)
  then show ?thesis
    using simd_groups_closed [OF assms(1,2,3)]
    by (simp add: update_positions_simd_def simd_loop.simps [of _ _ _ _ n n])
next
  case False
  then have "{0..<n} = {}" by simp
  then show ?thesis using False
    by (simp add: update_positions_simd_def simd_loop.simps [of _ _ _ _ n 0])
qed

lemma simd_tail_fault:
  assumes pb: "position_buffers x y vx vy (nat n) h" and n: "0 < n" "\<not> 8 dvd n" "n \<le> INT_MAX"
  shows "update_positions_simd x y vx vy n h = Inl OutOfBounds"
proof -
  define g where "g = 8 * (n div 8)"
  have g: "8 dvd g" "0 \<le> g" "g < n" "n < g + 8"
    using n by (auto simp: g_def) presburger+
  let ?H = "pos_result x y vx vy {0..<g} h"
  have split: "simd_loop x y vx vy n 0 h
        = and_then (run_order (simd_group x y vx vy) (iterations 0 g 8) h)
                   (simd_loop x y vx vy n g)"
    using g n(3) by (intro simd_loop_split) (auto simp: INT_MAX_def)
  have run: "run_order (simd_group x y vx vy) (iterations 0 g 8) h = Inr ?H"
    using pb g by (intro simd_groups_closed [where len = "nat n"]) auto
  have "base (h x) mod 32 = 0" "length (cells (h x)) = nat n"
    using pb by (auto simp: position_buffers_def)
  then have "mm256_load_ps ?H x g = Inl OutOfBounds"
    using g by (auto simp: mm256_load_ps_def aligned32_def dvd_def)
  then have "simd_group x y vx vy g ?H = Inl OutOfBounds"
    by (simp add: simd_group_def)
  then have "simd_loop x y vx vy n g ?H = Inl OutOfBounds"
    using g by (subst simd_loop.simps) simp
  then show ?thesis
    by (simp add: update_positions_simd_def split run)
qed



section \<open>Frame lemmas and unfolding rules of the position updaters\<close>

lemma and_then_Inr: "and_then m f = Inr r \<longleftrightarrow> (\<exists>v. m = Inr v \<and> f v = Inr r)"
  by (cases m) auto

lemma store_frame: "store h p i v = Inr h' \<Longrightarrow> q \<noteq> p \<Longrightarrow> h' q = h q"
  by (auto simp: store_def split: if_splits)

lemma mm256_store_frame: "mm256_store_ps h p i v = Inr h' \<Longrightarrow> q \<noteq> p \<Longrightarrow> h' q = h q"
  by (auto simp: mm256_store_ps_def split: if_splits)

lemma positions_elem_frame:
  "positions_elem x y vx vy i h = Inr h' \<Longrightarrow> q \<noteq> x \<Longrightarrow> q \<noteq> y \<Longrightarrow> h' q = h q"
  by (auto simp: positions_elem_def and_then_Inr dest!: store_frame [where q = q])

lemma simd_group_frame:
  "simd_group x y vx vy i h = Inr h' \<Longrightarrow> q \<noteq> x \<Longrightarrow> q \<noteq> y \<Longrightarrow> h' q = h q"
  by (auto simp: simd_group_def and_then_Inr dest!: mm256_store_frame [where q = q])

lemma positions_loop_frame:
  "positions_loop x y vx vy n i h = Inr h' \<Longrightarrow> q \<noteq> x \<Longrightarrow> q \<noteq> y \<Longrightarrow> h' q = h q"
proof (induction x y vx vy n i h rule: positions_loop.induct)
  case (1 x y vx vy n i h)
  show ?case
  proof (cases "i < n")
    case True
    then obtain h1 where h1: "positions_elem x y vx vy i h = Inr h1"
      and r: "positions_loop x y vx vy n (i + 1) h1 = Inr h'"
      using 1(2) by (subst (asm) positions_loop.simps) (auto split: sum.splits)
    have "h' q = h1 q" using True h1 r 1(3,4) by (intro 1(1))
    then show ?thesis using positions_elem_frame [OF h1 1(3,4)] by simp
  next
    case False
    then show ?thesis using 1(2) by (subst (asm) positions_loop.simps) simp
  qed
qed

lemma simd_loop_frame:
  "simd_loop x y vx vy n i h = Inr h' \<Longrightarrow> q \<noteq> x \<Longrightarrow> q \<noteq> y \<Longrightarrow> h' q = h q"
proof (induction x y vx vy n i h rule: simd_loop.induct)
  case (1 x y vx vy n i h)
  show ?case
  proof (cases "i < n")
    case True
    then obtain h1 i' where h1: "simd_group x y vx vy i h = Inr h1"
      and i': "int_add i 8 = Inr i'"
      and r: "simd_loop x y vx vy n i' h1 = Inr h'"
      using 1(2) by (subst (asm) simd_loop.simps) (auto split: sum.splits)
    have "h' q = h1 q" using True h1 i' r 1(3,4) by (intro 1(1))
    then show ?thesis using simd_group_frame [OF h1 1(3,4)] by simp
  next
    case False
    then show ?thesis using 1(2) by (subst (asm) simd_loop.simps) simp
  qed
qed

lemma positions_loop_stop: "\<not> i < n \<Longrightarrow> positions_loop x y vx vy n i h = Inr h"
  by (subst positions_loop.simps) simp

lemma positions_loop_step:
  "i < n \<Longrightarrow> positions_loop x y vx vy n i h =
     (case positions_elem x y vx vy i h of
        Inl e \<Rightarrow> Inl e
      | Inr h' \<Rightarrow> positions_loop x y vx vy n (i + 1) h')"
  by (subst positions_loop.simps) simp

lemma simd_loop_stop: "\<not> i < n \<Longrightarrow> simd_loop x y vx vy n i h = Inr h"
  by (subst simd_loop.simps) simp

lemma simd_loop_step:
  "i < n \<Longrightarrow> simd_loop x y vx vy n i h =
     (case simd_group x y vx vy i h of
        Inl e \<Rightarrow> Inl e
      | Inr h' \<Rightarrow>
          (case int_add i 8 of
             Inl e \<Rightarrow> Inl e
           | Inr i' \<Rightarrow> simd_loop x y vx vy n i' h'))"
  by (subst simd_loop.simps) simp


section \<open>Claims about the position updaters\<close>



text \<open>
  The scenario of the spec: eight particles at \<open>x = [0..7]\<close> with all velocities 1 end at
  \<open>[1..8]\<close>, on both paths.
\<close>

lemma scenario_simd_eight:
  "update_positions_simd 0 1 2 3 8 eight_particles = Inr eight_particles_advanced"
  by (simp add: update_positions_simd_def simd_loop_step simd_loop_stop
      simd_group_def mm256_load_ps_def mm256_store_ps_def mm256_add_ps_def aligned32_def
      eight_particles_def eight_particles_advanced_def int_add_def int_ok_def INT_MAX_def)

lemma scenario_baseline_eight:
  "update_positions_baseline 0 1 2 3 8 eight_particles = Inr eight_particles_advanced"
  by (simp add: update_positions_baseline_def positions_loop_step positions_loop_stop
      positions_elem_def load_def store_def eight_particles_def eight_particles_advanced_def)

text \<open>
  Claim C1, as stated: for every \<open>N \<ge> 0\<close> and four equal-length, 32-byte-aligned float
  arrays, \<^verbatim>\<open>update_positions_baseline\<close> and \<^verbatim>\<open>update_positions_simd\<close> leave
  identical \<open>x\<close> and \<open>y\<close> arrays. It fails at \<open>N = 1\<close> with four aligned arrays of one
  float: the only group of the vector loop loads \<open>x[0..7]\<close>, seven cells past the end of
  the array, while the scalar loop updates \<open>x[0]\<close> and \<open>y[0]\<close>.
\<close>

theorem simd_one_particle_out_of_bounds:
  "position_buffers 0 1 2 3 1 one_particle
   \<and> update_positions_simd 0 1 2 3 1 one_particle = Inl OutOfBounds
   \<and> update_positions_baseline 0 1 2 3 1 one_particle =
       Inr (one_particle (0 := \<lparr>base = 0, cells = [2]\<rparr>, 1 := \<lparr>base = 32, cells = [2]\<rparr>))"
  by (simp add: position_buffers_def update_positions_simd_def update_positions_baseline_def
      simd_loop_step simd_loop_stop positions_loop_step positions_loop_stop
      simd_group_def mm256_load_ps_def aligned32_def positions_elem_def load_def store_def
      one_particle_def)


text \<open>
  Claim C1, amended: for every \<open>N\<close> that is a multiple of 8 and four distinct, 32-byte
  aligned arrays of one length that is at least \<open>N\<close>, the two updaters return, and they
  return the same heap.
\<close>

theorem simd_equals_baseline_on_groups:
  assumes "position_buffers x y vx vy len h" "nat n \<le> len" "8 dvd n" "n \<le> INT_MAX"
  shows "update_positions_simd x y vx vy n h = update_positions_baseline x y vx vy n h
         \<and> (\<exists>h'. update_positions_baseline x y vx vy n h = Inr h')"
  using assms by (simp add: positions_simd_closed positions_baseline_closed)

theorem simd_equals_baseline_on_groups_witness:
  "position_buffers 0 1 2 3 8 eight_particles \<and> nat 8 \<le> (8::nat) \<and> (8::int) dvd 8 \<and> 8 \<le> INT_MAX
   \<and> update_positions_simd 0 1 2 3 8 eight_particles
       = update_positions_baseline 0 1 2 3 8 eight_particles
   \<and> (\<exists>h'. update_positions_baseline 0 1 2 3 8 eight_particles = Inr h')"
proof -
  have pb: "position_buffers 0 1 2 3 8 eight_particles"
    by (simp add: position_buffers_def eight_particles_def)
  show ?thesis
    using pb simd_equals_baseline_on_groups [OF pb, of 8] by (simp add: INT_MAX_def)
qed


text \<open>
  Claim C9: with four arrays of length exactly \<open>n\<close>, \<^verbatim>\<open>update_positions_simd\<close> stays
  within \<open>[0, n)\<close> if and only if \<open>n\<close> is a multiple of 8. When it is, the kernel
  returns what \<^verbatim>\<open>update_positions_baseline\<close> returns; when \<open>n > 0\<close> is not, all the
  groups before the last are in bounds and the last group, at \<open>8 * (n div 8)\<close>, reaches
  past the end of the arrays.
\<close>

theorem simd_in_bounds_iff_groups:
  assumes "position_buffers x y vx vy (nat n) h" "0 \<le> n" "n \<le> INT_MAX"
  shows "((update_positions_simd x y vx vy n h \<noteq> Inl OutOfBounds) \<longleftrightarrow> 8 dvd n)
       \<and> (8 dvd n \<longrightarrow>
            (\<exists>h'. update_positions_simd x y vx vy n h = Inr h')
            \<and> update_positions_simd x y vx vy n h = update_positions_baseline x y vx vy n h)
       \<and> (0 < n \<and> \<not> 8 dvd n \<longrightarrow>
            (\<exists>h1. run_order (simd_group x y vx vy) (iterations 0 (8 * (n div 8)) 8) h = Inr h1
               \<and> simd_group x y vx vy (8 * (n div 8)) h1 = Inl OutOfBounds)
            \<and> update_positions_simd x y vx vy n h = Inl OutOfBounds)"
proof (cases "8 dvd n")
  case True
  then show ?thesis
    using assms by (simp add: positions_simd_closed positions_baseline_closed)
next
  case False
  then have n: "0 < n" using assms(2) by (cases "n = 0") auto
  let ?g = "8 * (n div 8)"
  have g: "0 \<le> ?g" "?g < n" "n < ?g + 8"
    using n False by presburger+
  let ?H = "pos_result x y vx vy {0..<?g} h"
  have run: "run_order (simd_group x y vx vy) (iterations 0 ?g 8) h = Inr ?H"
    using assms(1) g by (intro simd_groups_closed [where len = "nat n"]) auto
  have "base (h x) mod 32 = 0" "length (cells (h x)) = nat n"
    using assms(1) by (auto simp: position_buffers_def)
  then have "mm256_load_ps ?H x ?g = Inl OutOfBounds"
    using g by (auto simp: mm256_load_ps_def aligned32_def)
  then have "simd_group x y vx vy ?g ?H = Inl OutOfBounds"
    by (simp add: simd_group_def)
  then show ?thesis
    using False n run simd_tail_fault [OF assms(1) n False assms(3)] by simp
qed

theorem simd_in_bounds_iff_groups_witness:
  "position_buffers 0 1 2 3 (nat 8) eight_particles \<and> (0::int) \<le> 8 \<and> 8 \<le> INT_MAX \<and> (8::int) dvd 8
   \<and> update_positions_simd 0 1 2 3 8 eight_particles \<noteq> Inl OutOfBounds
   \<and> update_positions_simd 0 1 2 3 8 eight_particles
       = update_positions_baseline 0 1 2 3 8 eight_particles
   \<and> position_buffers 0 1 2 3 (nat 3) three_particles \<and> (0::int) < 3 \<and> 3 \<le> INT_MAX \<and> \<not> (8::int) dvd 3
   \<and> update_positions_simd 0 1 2 3 3 three_particles = Inl OutOfBounds"
proof -
  have pb8: "position_buffers 0 1 2 3 (nat 8) eight_particles"
    by (simp add: position_buffers_def eight_particles_def)
  have pb3: "position_buffers 0 1 2 3 (nat 3) three_particles"
    by (simp add: position_buffers_def three_particles_def)
  show ?thesis
    using pb8 pb3 simd_in_bounds_iff_groups [OF pb8] simd_in_bounds_iff_groups [OF pb3]
    by (auto simp: INT_MAX_def)
qed



section \<open>The transposers in closed form\<close>


lemma length_transposed [simp]: "length (transposed n E s d) = length d"
  by (simp add: transposed_def)

lemma nth_transposed:
  "k < length d \<Longrightarrow> transposed n E s d ! k =
     (if (int k mod n, int k div n) \<in> E
      then s ! nat ((int k mod n) * n + int k div n) else d ! k)"
  by (simp add: transposed_def)

lemma transposed_empty [simp]: "transposed n {} s d = d"
  by (rule nth_equalityI) (simp_all add: nth_transposed)

lemma trans_result_empty [simp]: "trans_result src dst n {} h = h"
  by (simp add: trans_result_def)

lemma trans_result_other: "p \<noteq> dst \<Longrightarrow> trans_result src dst n E h p = h p"
  by (simp add: trans_result_def)

lemma index_in_square:
  fixes a b n :: int
  assumes "0 \<le> a" "a < n" "0 \<le> b" "b < n"
  shows "0 \<le> a * n" "a * n \<le> a * n + b" "a * n + b < n * n"
proof -
  show "0 \<le> a * n" using assms by simp
  show "a * n \<le> a * n + b" using assms by simp
  have "(a + 1) * n \<le> n * n" using assms by (intro mult_right_mono) auto
  then show "a * n + b < n * n" using assms by (simp add: algebra_simps)
qed

lemma square_bound:
  fixes n :: int
  assumes "0 \<le> n" "n \<le> 46340"
  shows "n * n \<le> 2147395600"
proof -
  have "n * n \<le> 46340 * 46340" using assms by (intro mult_mono) auto
  then show ?thesis by simp
qed

lemma index2_in_square:
  assumes "0 \<le> a" "a < n" "0 \<le> b" "b < n" "n \<le> 46340"
  shows "index2 a n b = Inr (a * n + b)"
proof -
  have "n * n \<le> 2147395600" using assms by (intro square_bound) auto
  then show ?thesis
    using index_in_square [OF assms(1-4)]
    by (simp add: index2_def int_mul_def int_add_def int_ok_def INT_MAX_def)
qed

lemma transposed_insert:
  assumes "0 \<le> ii" "ii < n" "0 \<le> jj" "jj < n" "(ii, jj) \<notin> E" "nat (n * n) \<le> length d"
  shows "(transposed n E s d)[nat (jj * n + ii) := s ! nat (ii * n + jj)]
         = transposed n (insert (ii, jj) E) s d"
proof (rule nth_equalityI)
  show "length ((transposed n E s d)[nat (jj * n + ii) := s ! nat (ii * n + jj)])
        = length (transposed n (insert (ii, jj) E) s d)" by simp
next
  fix k assume "k < length ((transposed n E s d)[nat (jj * n + ii) := s ! nat (ii * n + jj)])"
  then have k: "k < length d" by simp
  have n: "0 < n" using assms by simp
  have dm: "(jj * n + ii) mod n = ii" "(jj * n + ii) div n = jj"
    using assms n by simp_all
  have pos: "0 \<le> jj * n + ii" using assms by simp
  show "(transposed n E s d)[nat (jj * n + ii) := s ! nat (ii * n + jj)] ! k
        = transposed n (insert (ii, jj) E) s d ! k"
  proof (cases "k = nat (jj * n + ii)")
    case True
    then have "int k = jj * n + ii" using pos by simp
    then show ?thesis using True k dm by (simp add: nth_transposed)
  next
    case False
    have "(int k mod n, int k div n) \<noteq> (ii, jj)"
    proof
      assume "(int k mod n, int k div n) = (ii, jj)"
      then have "int k = jj * n + ii"
        using div_mult_mod_eq [of "int k" n] by simp
      then show False using False by simp
    qed
    then show ?thesis using False k by (auto simp: nth_transposed)
  qed
qed

lemma transpose_elem_step:
  assumes mb: "matrix_buffers src dst n h" and n: "n \<le> 46340"
    and ij: "0 \<le> ii" "ii < n" "0 \<le> jj" "jj < n" "(ii, jj) \<notin> E"
  shows "transpose_elem src dst n ii jj (trans_result src dst n E h)
         = Inr (trans_result src dst n (insert (ii, jj) E) h)"
proof -
  let ?H = "trans_result src dst n E h"
  have sd: "src \<noteq> dst" and ls: "nat (n * n) \<le> length (cells (h src))"
    and ld: "nat (n * n) \<le> length (cells (h dst))"
    using mb by (auto simp: matrix_buffers_def)
  have Hs: "?H src = h src" using sd by (simp add: trans_result_def)
  have Hd: "cells (?H dst) = transposed n E (cells (h src)) (cells (h dst))"
    by (simp add: trans_result_def)
  have b1: "0 \<le> ii * n + jj" "nat (ii * n + jj) < length (cells (h src))"
    using index_in_square [OF ij(1-4)] ls by linarith+
  have b2: "0 \<le> jj * n + ii" "nat (jj * n + ii) < length (cells (h dst))"
    using index_in_square [OF ij(3,4,1,2)] ld by linarith+
  have "transpose_elem src dst n ii jj ?H
        = Inr (?H(dst := (?H dst)\<lparr>cells := (cells (?H dst))[nat (jj * n + ii) := cells (h src) ! nat (ii * n + jj)]\<rparr>))"
    using b1 b2 ij n
    by (simp add: transpose_elem_def index2_in_square load_def store_def Hs Hd)
  also have "\<dots> = Inr (trans_result src dst n (insert (ii, jj) E) h)"
    using ij ld by (simp add: Hd transposed_insert) (simp add: trans_result_def)
  finally show ?thesis .
qed

lemma elems_closed:
  assumes mb: "matrix_buffers src dst n h" and n: "n \<le> 46340"
    and es: "distinct es" "set es \<subseteq> square n" "set es \<inter> E = {}"
  shows "run_order (\<lambda>(i, j). transpose_elem src dst n i j) es (trans_result src dst n E h)
         = Inr (trans_result src dst n (E \<union> set es) h)"
proof -
  have "run_order (\<lambda>(i, j). transpose_elem src dst n i j) es (trans_result src dst n (E \<union> {}) h)
        = Inr (trans_result src dst n (E \<union> ({} \<union> set es)) h)"
  proof (rule run_order_closed [where A = "square n - E" and F = "\<lambda>S. trans_result src dst n (E \<union> S) h"])
    fix e S assume a: "e \<in> square n - E" "S \<subseteq> square n - E" "e \<notin> S"
    obtain i j where e: "e = (i, j)" by (cases e)
    have "transpose_elem src dst n i j (trans_result src dst n (E \<union> S) h)
          = Inr (trans_result src dst n (insert (i, j) (E \<union> S)) h)"
      using a e by (intro transpose_elem_step [OF mb n]) (auto simp: square_def)
    then show "(case e of (i, j) \<Rightarrow> transpose_elem src dst n i j) (trans_result src dst n (E \<union> S) h)
               = Inr (trans_result src dst n (E \<union> insert e S) h)"
      by (simp add: e)
  qed (use es in auto)
  then show ?thesis by simp
qed


lemma run_order_append:
  "run_order body (xs @ ys) s = and_then (run_order body xs s) (run_order body ys)"
  by (induction xs arbitrary: s) (auto split: sum.splits)

lemma run_order_map_Pair:
  "run_order (\<lambda>(i, j). body i j) (map (Pair i) js) s = run_order (body i) js s"
  by (induction js arbitrary: s) (auto split: sum.splits)

lemma run_order_product:
  "run_order (\<lambda>i. run_order (body i) js) is s
   = run_order (\<lambda>(i, j). body i j) (List.product is js) s"
proof (induction "is" arbitrary: s)
  case Nil
  then show ?case by simp
next
  case (Cons i "is")
  show ?case
    by (cases "run_order (body i) js s")
       (simp_all add: run_order_append run_order_map_Pair Cons.IH)
qed

lemma iterations_step: "i < n \<Longrightarrow> 0 < s \<Longrightarrow> iterations i n s = i # iterations (i + s) n s"
  by (subst iterations.simps) simp

lemma iterations_stop: "\<not> i < n \<Longrightarrow> iterations i n s = []"
  by (subst iterations.simps) simp

lemma baseline_row_run:
  "baseline_row src dst n i j h = run_order (transpose_elem src dst n i) (iterations j n 1) h"
proof (induction src dst n i j h rule: baseline_row.induct)
  case (1 src dst n i j h)
  show ?case
  proof (cases "j < n")
    case True
    then show ?thesis
      using 1 by (subst baseline_row.simps) (simp add: iterations_step split: sum.splits)
  next
    case False
    then show ?thesis by (subst baseline_row.simps) (simp add: iterations_stop)
  qed
qed

lemma baseline_rows_run:
  "baseline_rows src dst n i h
   = run_order (\<lambda>i. run_order (transpose_elem src dst n i) (iterations 0 n 1)) (iterations i n 1) h"
proof (induction src dst n i h rule: baseline_rows.induct)
  case (1 src dst n i h)
  show ?case
  proof (cases "i < n")
    case True
    then show ?thesis
      using 1 by (subst baseline_rows.simps)
        (simp add: iterations_step baseline_row_run split: sum.splits)
  next
    case False
    then show ?thesis by (subst baseline_rows.simps) (simp add: iterations_stop)
  qed
qed

lemma baseline_as_run:
  "matrix_transpose_baseline src dst n h
   = run_order (\<lambda>(i, j). transpose_elem src dst n i j)
       (List.product (iterations 0 n 1) (iterations 0 n 1)) h"
  by (simp add: matrix_transpose_baseline_def baseline_rows_run run_order_product)

lemma iterations_set_1: "set (iterations a b 1) = {a..<b}"
  by (auto simp: iterations_mem)

lemma transpose_baseline_closed:
  assumes "matrix_buffers src dst n h" "n \<le> 46340"
  shows "matrix_transpose_baseline src dst n h = Inr (trans_result src dst n (square n) h)"
proof -
  have "run_order (\<lambda>(i, j). transpose_elem src dst n i j)
          (List.product (iterations 0 n 1) (iterations 0 n 1)) (trans_result src dst n {} h)
        = Inr (trans_result src dst n ({} \<union> set (List.product (iterations 0 n 1) (iterations 0 n 1))) h)"
    using assms
    by (intro elems_closed) (auto simp: distinct_product iterations_distinct iterations_set_1 square_def)
  then show ?thesis
    by (simp add: baseline_as_run iterations_set_1 square_def)
qed

lemma nth_trans_result_square:
  assumes "matrix_buffers src dst n h" "0 \<le> i" "i < n" "0 \<le> j" "j < n"
  shows "cells (trans_result src dst n (square n) h dst) ! nat (j * n + i)
         = cells (h src) ! nat (i * n + j)"
proof -
  have "nat (j * n + i) < length (cells (h dst))"
    using index_in_square [OF assms(4,5,2,3)] assms(1) by (simp add: matrix_buffers_def) linarith
  moreover have "0 \<le> j * n + i" "(j * n + i) mod n = i" "(j * n + i) div n = j"
    using assms by simp_all
  ultimately show ?thesis
    using assms by (simp add: trans_result_def nth_transposed square_def)
qed


lemma block_16: "block = 16"
  by (simp add: block_def)

lemma int_add_block: "0 \<le> j \<Longrightarrow> j \<le> 2147483631 \<Longrightarrow> int_add j block = Inr (j + block)"
  by (simp add: int_add_def int_ok_def INT_MAX_def block_def)

lemma tile_row_run:
  assumes "0 \<le> j" "j \<le> 2147483631"
  shows "tile_row src dst n j ii jj h
         = run_order (transpose_elem src dst n ii) (iterations jj (min (j + block) n) 1) h"
  using assms
proof (induction src dst n j ii jj h rule: tile_row.induct)
  case (1 src dst n j ii jj h)
  note ok = int_add_block [OF 1(2,3)]
  show ?case
  proof (cases "jj < j + block \<and> jj < n")
    case True
    then show ?thesis
      using 1 ok by (subst tile_row.simps) (simp add: iterations_step split: sum.splits)
  next
    case False
    then show ?thesis
      using ok by (subst tile_row.simps) (auto simp: iterations_stop)
  qed
qed

lemma tile_rows_run:
  assumes "0 \<le> i" "i \<le> 2147483631" "0 \<le> j" "j \<le> 2147483631"
  shows "tile_rows src dst n i j ii h
         = run_order (\<lambda>ii. run_order (transpose_elem src dst n ii) (iterations j (min (j + block) n) 1))
             (iterations ii (min (i + block) n) 1) h"
  using assms
proof (induction src dst n i j ii h rule: tile_rows.induct)
  case (1 src dst n i j ii h)
  note ok = int_add_block [OF 1(2,3)]
  show ?case
  proof (cases "ii < i + block \<and> ii < n")
    case True
    then show ?thesis
      using 1 ok by (subst tile_rows.simps)
        (simp add: iterations_step tile_row_run split: sum.splits)
  next
    case False
    then show ?thesis
      using ok by (subst tile_rows.simps) (auto simp: iterations_stop)
  qed
qed

lemma mm_prefetch_ok:
  assumes "0 \<le> i" "i < n" "0 \<le> j" "j < n" "n \<le> 46340"
  shows "mm_prefetch src n i j h = Inr h"
proof -
  have "n * n \<le> 2147395600" using assms by (intro square_bound) auto
  then show ?thesis
    using index_in_square [OF assms(1-4)] assms
    by (simp add: mm_prefetch_def index2_in_square int_add_def int_ok_def INT_MAX_def block_def)
qed

lemma tile_closed:
  assumes mb: "matrix_buffers src dst n h" and n: "n \<le> 46340"
    and ij: "0 \<le> i" "i < n" "0 \<le> j" "j < n" and E: "tile_elems n i j \<inter> E = {}"
  shows "tile src dst n i j (trans_result src dst n E h)
         = Inr (trans_result src dst n (E \<union> tile_elems n i j) h)"
proof -
  let ?rows = "iterations i (min (i + block) n) 1"
  let ?cols = "iterations j (min (j + block) n) 1"
  have set: "set (List.product ?rows ?cols) = tile_elems n i j"
    by (simp add: iterations_set_1 tile_elems_def)
  have sub: "tile_elems n i j \<subseteq> square n"
    using ij by (auto simp: tile_elems_def square_def)
  have "tile src dst n i j (trans_result src dst n E h)
        = run_order (\<lambda>(i, j). transpose_elem src dst n i j) (List.product ?rows ?cols)
            (trans_result src dst n E h)"
    using ij n by (simp add: tile_def mm_prefetch_ok tile_rows_run run_order_product)
  also have "\<dots> = Inr (trans_result src dst n (E \<union> set (List.product ?rows ?cols)) h)"
  proof (intro elems_closed [OF mb n])
    show "distinct (List.product ?rows ?cols)"
      by (simp add: distinct_product iterations_distinct)
    show "set (List.product ?rows ?cols) \<subseteq> square n" using sub by (simp only: set)
    show "set (List.product ?rows ?cols) \<inter> E = {}" using E by (simp only: set)
  qed
  finally show ?thesis by (simp only: set)
qed

lemma covered_insert: "covered n (insert (i, j) T) = covered n T \<union> tile_elems n i j"
  by (auto simp: covered_def)

lemma tile_elems_disjoint:
  assumes "block dvd i" "block dvd j" "block dvd i'" "block dvd j'" "(i, j) \<noteq> (i', j')"
  shows "tile_elems n i j \<inter> tile_elems n i' j' = {}"
proof -
  have "False" if "i \<le> a" "a < i + 16" "i' \<le> a" "a < i' + 16"
                  "j \<le> b" "b < j + 16" "j' \<le> b" "b < j' + 16" for a b
  proof -
    have "i = i'" using assms(1,3) that(1-4) unfolding block_16 by presburger
    moreover have "j = j'" using assms(2,4) that(5-8) unfolding block_16 by presburger
    ultimately show False using assms(5) by simp
  qed
  then show ?thesis by (auto simp: tile_elems_def block_16)
qed

lemma covered_disjoint:
  assumes "T \<subseteq> origins n" "(i, j) \<in> origins n" "(i, j) \<notin> T"
  shows "tile_elems n i j \<inter> covered n T = {}"
proof -
  have "tile_elems n i j \<inter> tile_elems n i' j' = {}" if "(i', j') \<in> T" for i' j'
    using that assms by (intro tile_elems_disjoint) (auto simp: origins_def)
  then show ?thesis by (auto simp: covered_def)
qed

lemma covered_origins: "covered n (origins n) = square n"
proof (rule set_eqI)
  fix p :: "int \<times> int"
  obtain a b where p: "p = (a, b)" by (cases p)
  show "p \<in> covered n (origins n) \<longleftrightarrow> p \<in> square n"
  proof
    assume "p \<in> covered n (origins n)"
    then show "p \<in> square n"
      by (auto simp: p covered_def origins_def tile_elems_def square_def)
  next
    assume "p \<in> square n"
    then have ab: "0 \<le> a" "a < n" "0 \<le> b" "b < n" by (simp_all add: p square_def)
    let ?i = "16 * (a div 16)" and ?j = "16 * (b div 16)"
    have i: "0 \<le> ?i" "?i < n" "?i \<le> a" "a < ?i + 16" using ab(1,2) by presburger+
    have j: "0 \<le> ?j" "?j < n" "?j \<le> b" "b < ?j + 16" using ab(3,4) by presburger+
    have "(?i, ?j) \<in> origins n" using i j by (simp add: origins_def block_16)
    moreover have "(a, b) \<in> tile_elems n ?i ?j"
      using i j ab by (simp add: tile_elems_def block_16)
    ultimately show "p \<in> covered n (origins n)"
      unfolding p covered_def by blast
  qed
qed

lemma tiles_closed:
  assumes mb: "matrix_buffers src dst n h" and n: "n \<le> 46340"
    and ts: "distinct ts" "set ts \<subseteq> origins n"
  shows "run_order (\<lambda>(i, j). tile src dst n i j) ts h
         = Inr (trans_result src dst n (covered n (set ts)) h)"
proof -
  have "run_order (\<lambda>(i, j). tile src dst n i j) ts (trans_result src dst n (covered n {}) h)
        = Inr (trans_result src dst n (covered n ({} \<union> set ts)) h)"
  proof (rule run_order_closed [where A = "origins n" and F = "\<lambda>T. trans_result src dst n (covered n T) h"])
    fix t T assume a: "t \<in> origins n" "T \<subseteq> origins n" "t \<notin> T"
    obtain i j where t: "t = (i, j)" by (cases t)
    have "tile src dst n i j (trans_result src dst n (covered n T) h)
          = Inr (trans_result src dst n (covered n T \<union> tile_elems n i j) h)"
      using a t covered_disjoint [of T n i j]
      by (intro tile_closed [OF mb n]) (auto simp: origins_def)
    then show "(case t of (i, j) \<Rightarrow> tile src dst n i j) (trans_result src dst n (covered n T) h)
               = Inr (trans_result src dst n (covered n (insert t T)) h)"
      by (simp add: t covered_insert)
  qed (use ts in auto)
  then show ?thesis by (simp add: covered_def)
qed

lemma tiles_row_run:
  assumes "0 \<le> j" "n \<le> 2147483631"
  shows "tiles_row src dst n i j h = run_order (tile src dst n i) (iterations j n block) h"
  using assms
proof (induction src dst n i j h rule: tiles_row.induct)
  case (1 src dst n i j h)
  show ?case
  proof (cases "j < n")
    case True
    then have ok: "int_add j block = Inr (j + block)"
      using 1(2,3) by (intro int_add_block) auto
    have b: "0 < block" "0 \<le> j + block" using 1(2) by (simp_all add: block_def)
    show ?thesis
    proof (cases "tile src dst n i j h")
      case (Inl e)
      then show ?thesis using True b by (subst tiles_row.simps) (simp add: iterations_step)
    next
      case (Inr h')
      then show ?thesis
        using True b ok 1(1) [OF True Inr ok b(2) 1(3)]
        by (subst tiles_row.simps) (simp add: iterations_step)
    qed
  next
    case False
    then show ?thesis by (subst tiles_row.simps) (simp add: iterations_stop)
  qed
qed

lemma tiles_rows_run:
  assumes "0 \<le> i" "n \<le> 2147483631"
  shows "tiles_rows src dst n i h
         = run_order (\<lambda>i. run_order (tile src dst n i) (iterations 0 n block)) (iterations i n block) h"
  using assms
proof (induction src dst n i h rule: tiles_rows.induct)
  case (1 src dst n i h)
  show ?case
  proof (cases "i < n")
    case True
    then have ok: "int_add i block = Inr (i + block)"
      using 1(2,3) by (intro int_add_block) auto
    have b: "0 < block" "0 \<le> i + block" using 1(2) by (simp_all add: block_def)
    show ?thesis
    proof (cases "tiles_row src dst n i 0 h")
      case (Inl e)
      then show ?thesis
        using True b 1(3) by (subst tiles_rows.simps) (simp add: iterations_step tiles_row_run)
    next
      case (Inr h')
      then show ?thesis
        using True b ok 1(3) 1(1) [OF True Inr ok b(2) 1(3)]
        by (subst tiles_rows.simps) (simp add: iterations_step tiles_row_run)
    qed
  next
    case False
    then show ?thesis by (subst tiles_rows.simps) (simp add: iterations_stop)
  qed
qed

lemma cache_optimized_as_run:
  assumes "n \<le> 2147483631"
  shows "matrix_transpose_cache_optimized src dst n h
         = run_order (\<lambda>(i, j). tile src dst n i j)
             (List.product (iterations 0 n block) (iterations 0 n block)) h"
  using assms
  by (simp add: matrix_transpose_cache_optimized_def tiles_rows_run run_order_product)

lemma tile_origins_set:
  "set (List.product (iterations 0 n block) (iterations 0 n block)) = origins n"
  by (auto simp: iterations_mem origins_def block_16)

lemma transpose_cache_optimized_closed:
  assumes "matrix_buffers src dst n h" "n \<le> 46340"
  shows "matrix_transpose_cache_optimized src dst n h = Inr (trans_result src dst n (square n) h)"
proof -
  have "run_order (\<lambda>(i, j). tile src dst n i j)
          (List.product (iterations 0 n block) (iterations 0 n block)) h
        = Inr (trans_result src dst n
            (covered n (set (List.product (iterations 0 n block) (iterations 0 n block)))) h)"
    using assms
    by (intro tiles_closed) (simp_all only: tile_origins_set subset_refl, simp add: distinct_product iterations_distinct)
  moreover have "covered n (set (List.product (iterations 0 n block) (iterations 0 n block)))
                 = square n"
    by (simp only: tile_origins_set covered_origins)
  moreover have "n \<le> 2147483631" using assms(2) by simp
  ultimately show ?thesis
    by (simp only: cache_optimized_as_run)
qed



section \<open>Where the index arithmetic of the transposers overflows\<close>

text \<open>
  Both transposers compute \<^verbatim>\<open>ii * n + jj\<close> in \<^verbatim>\<open>int\<close>. The largest index of an
  \<open>n \<times> n\<close> matrix is \<open>n * n - 1\<close>, which fits while \<open>n \<le> 46340\<close> and no longer at
  \<open>n = 46341\<close>, where \<open>46340 * 46341 + 46340\<close> exceeds \<^verbatim>\<open>INT_MAX\<close>.
\<close>

lemma run_order_fault:
  assumes "i \<in> set is" "\<And>s. isl (body i s)"
  shows "isl (run_order body is s)"
  using assms(1)
proof (induction "is" arbitrary: s)
  case Nil
  then show ?case by simp
next
  case (Cons a "is")
  show ?case
  proof (cases "body a s")
    case (Inl e)
    then show ?thesis by simp
  next
    case (Inr s')
    have "a \<noteq> i" using Inr assms(2) [of s] by auto
    then show ?thesis using Cons Inr by simp
  qed
qed

lemma index2_overflow: "INT_MAX < a * n + b \<Longrightarrow> index2 a n b = Inl IntOverflow"
  by (simp add: index2_def int_mul_def int_add_def int_ok_def)

lemma transpose_elem_overflow:
  "INT_MAX < ii * n + jj \<Longrightarrow> isl (transpose_elem src dst n ii jj h)"
  by (simp add: transpose_elem_def index2_overflow)

lemma baseline_overflow:
  "isl (matrix_transpose_baseline src dst 46341 h)"
proof -
  have "(46340, 46340) \<in> set (List.product (iterations 0 46341 1) (iterations 0 46341 1))"
    by (simp add: iterations_set_1)
  moreover have "isl ((\<lambda>(i, j). transpose_elem src dst 46341 i j) (46340, 46340) s)" for s :: "'a heap"
    by (simp add: transpose_elem_overflow INT_MAX_def)
  ultimately show ?thesis
    unfolding baseline_as_run by (rule run_order_fault)
qed

lemma cache_optimized_overflow:
  "isl (matrix_transpose_cache_optimized src dst 46341 h)"
proof -
  have cols: "46336 \<in> set (iterations 46336 (min (46336 + block) 46341) 1)"
    by (simp add: iterations_set_1 block_16)
  have rows: "46340 \<in> set (iterations 46336 (min (46336 + block) 46341) 1)"
    by (simp add: iterations_set_1 block_16)
  have row: "isl (run_order (transpose_elem src dst 46341 46340)
                   (iterations 46336 (min (46336 + block) 46341) 1) s)" for s :: "'a heap"
    using cols by (rule run_order_fault) (simp add: transpose_elem_overflow INT_MAX_def)
  have "isl (tile_rows src dst 46341 46336 46336 46336 s)" for s :: "'a heap"
    unfolding tile_rows_run [of 46336 46336, simplified]
    using rows by (rule run_order_fault) (rule row)
  then have t: "isl (tile src dst 46341 46336 46336 s)" for s :: "'a heap"
    by (cases "mm_prefetch src 46341 46336 46336 s") (simp_all add: tile_def)
  have "(46336, 46336) \<in> set (List.product (iterations 0 46341 block) (iterations 0 46341 block))"
    by (simp add: iterations_mem block_16)
  moreover have "isl ((\<lambda>(i, j). tile src dst 46341 i j) (46336, 46336) s)" for s :: "'a heap"
    by (simp add: t)
  ultimately have "isl (run_order (\<lambda>(i, j). tile src dst 46341 i j)
      (List.product (iterations 0 46341 block) (iterations 0 46341 block)) h)"
    by (rule run_order_fault)
  then show ?thesis by (simp add: cache_optimized_as_run)
qed


lemma square_index:
  fixes n :: int
  assumes "k < nat (n * n)" "0 \<le> n"
  shows "0 \<le> int k mod n" "int k mod n < n" "0 \<le> int k div n" "int k div n < n"
        "int k = (int k div n) * n + int k mod n"
proof -
  have n: "0 < n" using assms by (cases "n = 0") auto
  show "0 \<le> int k mod n" "int k mod n < n" using n by simp_all
  show "0 \<le> int k div n" using n by (simp add: pos_imp_zdiv_nonneg_iff)
  show eq: "int k = (int k div n) * n + int k mod n" by simp
  have lt: "int k < n * n" using assms by linarith
  show "int k div n < n"
  proof (rule ccontr)
    assume "\<not> int k div n < n"
    then have "n * n \<le> (int k div n) * n" using n by (intro mult_right_mono) auto
    moreover have "(int k div n) * n \<le> int k" using eq \<open>0 \<le> int k mod n\<close> by linarith
    ultimately show False using lt by linarith
  qed
qed


section \<open>Claims about the transposers\<close>

lemma huge_matrix_buffers: "p \<noteq> q \<Longrightarrow> matrix_buffers p q 46341 huge_matrices"
  by (simp add: matrix_buffers_def huge_matrices_def)


text \<open>
  Claim C5, as stated: for every \<open>N \<ge> 0\<close>, every \<open>N \<times> N\<close> source and every destination
  distinct from it, \<^verbatim>\<open>matrix_transpose_baseline\<close> establishes
  \<open>dst[j*N+i] = src[i*N+j]\<close>. It fails at \<open>N = 46341\<close>: in row 46340 the index
  \<^verbatim>\<open>i * n + j\<close> overflows \<^verbatim>\<open>int\<close>, which is undefined, and the kernel establishes
  nothing.
\<close>

theorem baseline_faults_at_46341:
  "matrix_buffers 0 1 46341 huge_matrices \<and> isl (matrix_transpose_baseline 0 1 46341 huge_matrices)"
  by (simp add: huge_matrix_buffers baseline_overflow)


text \<open>
  Claim C5, amended: for every \<open>N \<le> 46340\<close>, every source of at least \<open>N * N\<close> cells and
  every destination of at least \<open>N * N\<close> cells distinct from it,
  \<^verbatim>\<open>matrix_transpose_baseline\<close> returns and establishes \<open>dst[j*N+i] = src[i*N+j]\<close> for
  all \<open>i, j\<close> in \<open>[0, N)\<close>.
\<close>

theorem baseline_transposes:
  assumes "matrix_buffers src dst n h" "n \<le> 46340"
  shows "\<exists>h'. matrix_transpose_baseline src dst n h = Inr h'
           \<and> (\<forall>i j. 0 \<le> i \<and> i < n \<and> 0 \<le> j \<and> j < n \<longrightarrow>
                 cells (h' dst) ! nat (j * n + i) = cells (h src) ! nat (i * n + j))"
  using assms by (simp add: transpose_baseline_closed nth_trans_result_square)

theorem baseline_transposes_witness:
  "matrix_buffers 0 1 17 (small_matrices 289) \<and> (17::int) \<le> 46340
   \<and> (\<exists>h'. matrix_transpose_baseline 0 1 17 (small_matrices 289) = Inr h'
           \<and> (\<forall>i j. 0 \<le> i \<and> i < 17 \<and> 0 \<le> j \<and> j < 17 \<longrightarrow>
                 cells (h' 1) ! nat (j * 17 + i) = cells (small_matrices 289 0) ! nat (i * 17 + j)))"
proof -
  have mb: "matrix_buffers 0 1 17 (small_matrices 289)"
    by (simp add: matrix_buffers_def small_matrices_def)
  show ?thesis
    using mb baseline_transposes [OF mb] by simp
qed


text \<open>
  Claim C3, as stated: for every \<open>N \<ge> 0\<close>, \<^verbatim>\<open>matrix_transpose_cache_optimized\<close> writes a
  destination identical to the one \<^verbatim>\<open>matrix_transpose_baseline\<close> writes. It fails at
  \<open>N = 46341\<close>: in the last tile, at \<open>(46336, 46336)\<close>, the index of row 46340 overflows
  \<^verbatim>\<open>int\<close>, and the kernel writes no defined destination.
\<close>

theorem cache_optimized_faults_at_46341:
  "matrix_buffers 0 1 46341 huge_matrices
   \<and> isl (matrix_transpose_cache_optimized 0 1 46341 huge_matrices)"
  by (simp add: huge_matrix_buffers cache_optimized_overflow)


text \<open>
  Claim C3, amended: for every \<open>N \<le> 46340\<close>, a multiple of the tile size or not, and
  distinct buffers of at least \<open>N * N\<close> cells, \<^verbatim>\<open>matrix_transpose_cache_optimized\<close> and
  \<^verbatim>\<open>matrix_transpose_baseline\<close> both return, and they return the same heap. The witness
  is at \<open>N = 17\<close>, where three of the four tiles are clamped.
\<close>

theorem cache_optimized_equals_baseline:
  assumes "matrix_buffers src dst n h" "n \<le> 46340"
  shows "matrix_transpose_cache_optimized src dst n h = matrix_transpose_baseline src dst n h
         \<and> (\<exists>h'. matrix_transpose_baseline src dst n h = Inr h')"
  using assms by (simp add: transpose_baseline_closed transpose_cache_optimized_closed)

theorem cache_optimized_equals_baseline_witness:
  "matrix_buffers 0 1 17 (small_matrices 289) \<and> (17::int) \<le> 46340
   \<and> matrix_transpose_cache_optimized 0 1 17 (small_matrices 289)
       = matrix_transpose_baseline 0 1 17 (small_matrices 289)
   \<and> (\<exists>h'. matrix_transpose_baseline 0 1 17 (small_matrices 289) = Inr h')"
proof -
  have mb: "matrix_buffers 0 1 17 (small_matrices 289)"
    by (simp add: matrix_buffers_def small_matrices_def)
  show ?thesis
    using mb cache_optimized_equals_baseline [OF mb] by simp
qed



text \<open>
  Claim C7, as stated: for every \<open>N \<ge> 0\<close>, transposing twice with
  \<^verbatim>\<open>matrix_transpose_baseline\<close> gives back the source. It fails at \<open>N = 46341\<close>, where
  the first of the two calls already overflows \<^verbatim>\<open>int\<close>.
\<close>

theorem involution_faults_at_46341:
  "matrix_buffers 0 1 46341 huge_matrices \<and> matrix_buffers 1 2 46341 huge_matrices
   \<and> isl (transpose_twice 0 1 2 46341 huge_matrices)"
proof -
  have "isl (matrix_transpose_baseline 0 1 46341 huge_matrices)"
    by (rule baseline_overflow)
  then have "isl (transpose_twice 0 1 2 46341 huge_matrices)"
    by (cases "matrix_transpose_baseline 0 1 46341 huge_matrices") (simp_all add: transpose_twice_def)
  then show ?thesis by (simp add: huge_matrix_buffers)
qed


text \<open>
  Claim C7, amended: for every \<open>N\<close> with \<open>0 \<le> N \<le> 46340\<close> (so for \<open>N = 0\<close> and
  \<open>N = 1\<close>), transposing a source into a distinct buffer and that buffer into a second
  one distinct from it, all of at least \<open>N * N\<close> cells, returns, and the \<open>N * N\<close> cells of
  the second buffer equal those of the source.
\<close>

theorem baseline_involution:
  assumes "matrix_buffers src tmp n h" "matrix_buffers tmp dst n h" "0 \<le> n" "n \<le> 46340"
  shows "\<exists>h2. transpose_twice src tmp dst n h = Inr h2
           \<and> take (nat (n * n)) (cells (h2 dst)) = take (nat (n * n)) (cells (h src))"
proof -
  let ?h1 = "trans_result src tmp n (square n) h"
  let ?h2 = "trans_result tmp dst n (square n) ?h1"
  have st: "src \<noteq> tmp" and td: "tmp \<noteq> dst"
    and ls: "nat (n * n) \<le> length (cells (h src))"
    and ld: "nat (n * n) \<le> length (cells (h dst))"
    using assms(1,2) by (auto simp: matrix_buffers_def)
  have one: "matrix_transpose_baseline src tmp n h = Inr ?h1"
    using assms by (simp add: transpose_baseline_closed)
  have mb2: "matrix_buffers tmp dst n ?h1"
    using assms(1,2) by (auto simp: matrix_buffers_def trans_result_def)
  have two: "matrix_transpose_baseline tmp dst n ?h1 = Inr ?h2"
    using mb2 assms(4) by (simp add: transpose_baseline_closed)
  have len2: "nat (n * n) \<le> length (cells (?h2 dst))"
    using td ld by (simp add: trans_result_def)
  have "take (nat (n * n)) (cells (?h2 dst)) = take (nat (n * n)) (cells (h src))"
  proof (intro nth_take_lemma [OF len2 ls] impI)
    fix k assume k: "k < nat (n * n)"
    let ?i = "int k mod n" and ?j = "int k div n"
    note ix = square_index [OF k assms(3)]
    have kk: "k = nat (?j * n + ?i)" using ix(5) by linarith
    have "cells (?h2 dst) ! nat (?j * n + ?i) = cells (?h1 tmp) ! nat (?i * n + ?j)"
      using mb2 ix(1-4) by (intro nth_trans_result_square)
    also have "\<dots> = cells (h src) ! nat (?j * n + ?i)"
      using assms(1) ix(1-4) by (intro nth_trans_result_square)
    finally show "cells (?h2 dst) ! k = cells (h src) ! k"
      using kk by simp
  qed
  then show ?thesis by (simp add: transpose_twice_def one two)
qed

theorem baseline_involution_witness:
  "matrix_buffers 0 1 17 (small_matrices 289) \<and> matrix_buffers 1 2 17 (small_matrices 289)
   \<and> (0::int) \<le> 17 \<and> (17::int) \<le> 46340
   \<and> (\<exists>h2. transpose_twice 0 1 2 17 (small_matrices 289) = Inr h2
           \<and> take (nat (17 * 17)) (cells (h2 2)) = take (nat (17 * 17)) (cells (small_matrices 289 0)))"
proof -
  have mb: "matrix_buffers 0 1 17 (small_matrices 289)" "matrix_buffers 1 2 17 (small_matrices 289)"
    by (simp_all add: matrix_buffers_def small_matrices_def)
  show ?thesis
    using mb baseline_involution [OF mb] by simp
qed



section \<open>The 4 x 4 scenario\<close>

text \<open>Unfolding rules for running the transposers on a given heap.\<close>

lemma baseline_row_stop: "\<not> j < n \<Longrightarrow> baseline_row src dst n i j h = Inr h"
  by (subst baseline_row.simps) simp

lemma baseline_row_step:
  "j < n \<Longrightarrow> baseline_row src dst n i j h =
     (case transpose_elem src dst n i j h of
        Inl e \<Rightarrow> Inl e
      | Inr h' \<Rightarrow> baseline_row src dst n i (j + 1) h')"
  by (subst baseline_row.simps) simp

lemma baseline_rows_stop: "\<not> i < n \<Longrightarrow> baseline_rows src dst n i h = Inr h"
  by (subst baseline_rows.simps) simp

lemma baseline_rows_step:
  "i < n \<Longrightarrow> baseline_rows src dst n i h =
     (case baseline_row src dst n i 0 h of
        Inl e \<Rightarrow> Inl e
      | Inr h' \<Rightarrow> baseline_rows src dst n (i + 1) h')"
  by (subst baseline_rows.simps) simp

lemma tile_row_stop:
  "0 \<le> j \<Longrightarrow> j \<le> 2147483631 \<Longrightarrow> \<not> (jj < j + block \<and> jj < n) \<Longrightarrow>
   tile_row src dst n j ii jj h = Inr h"
  by (subst tile_row.simps) (auto simp: int_add_block)

lemma tile_row_step:
  "0 \<le> j \<Longrightarrow> j \<le> 2147483631 \<Longrightarrow> jj < j + block \<Longrightarrow> jj < n \<Longrightarrow>
   tile_row src dst n j ii jj h =
     (case transpose_elem src dst n ii jj h of
        Inl e \<Rightarrow> Inl e
      | Inr h' \<Rightarrow> tile_row src dst n j ii (jj + 1) h')"
  by (subst tile_row.simps) (simp add: int_add_block)

lemma tile_rows_stop:
  "0 \<le> i \<Longrightarrow> i \<le> 2147483631 \<Longrightarrow> \<not> (ii < i + block \<and> ii < n) \<Longrightarrow>
   tile_rows src dst n i j ii h = Inr h"
  by (subst tile_rows.simps) (auto simp: int_add_block)

lemma tile_rows_step:
  "0 \<le> i \<Longrightarrow> i \<le> 2147483631 \<Longrightarrow> ii < i + block \<Longrightarrow> ii < n \<Longrightarrow>
   tile_rows src dst n i j ii h =
     (case tile_row src dst n j ii j h of
        Inl e \<Rightarrow> Inl e
      | Inr h' \<Rightarrow> tile_rows src dst n i j (ii + 1) h')"
  by (subst tile_rows.simps) (simp add: int_add_block)

lemma tiles_row_stop: "\<not> j < n \<Longrightarrow> tiles_row src dst n i j h = Inr h"
  by (subst tiles_row.simps) simp

lemma tiles_row_step:
  "j < n \<Longrightarrow> tiles_row src dst n i j h =
     (case tile src dst n i j h of
        Inl e \<Rightarrow> Inl e
      | Inr h' \<Rightarrow>
          (case int_add j block of
             Inl e \<Rightarrow> Inl e
           | Inr j' \<Rightarrow> tiles_row src dst n i j' h'))"
  by (subst tiles_row.simps) simp

lemma tiles_rows_stop: "\<not> i < n \<Longrightarrow> tiles_rows src dst n i h = Inr h"
  by (subst tiles_rows.simps) simp

lemma tiles_rows_step:
  "i < n \<Longrightarrow> tiles_rows src dst n i h =
     (case tiles_row src dst n i 0 h of
        Inl e \<Rightarrow> Inl e
      | Inr h' \<Rightarrow>
          (case int_add i block of
             Inl e \<Rightarrow> Inl e
           | Inr i' \<Rightarrow> tiles_rows src dst n i' h'))"
  by (subst tiles_rows.simps) simp

lemmas transpose_eval =
  baseline_row_stop baseline_row_step baseline_rows_stop baseline_rows_step
  tile_row_stop tile_row_step tile_rows_stop tile_rows_step
  tiles_row_stop tiles_row_step tiles_rows_stop tiles_rows_step
  matrix_transpose_baseline_def matrix_transpose_cache_optimized_def tile_def mm_prefetch_def
  transpose_elem_def index2_def int_mul_def int_add_def int_ok_def INT_MAX_def block_16
  load_def store_def


text \<open>
  The scenario of the spec: the 4 x 4 matrix with \<open>src[i*4+j] = i*4+j\<close> is written to the
  destination as its standard transpose, by both implementations.
\<close>

lemma scenario_baseline_four:
  "matrix_transpose_baseline 0 1 4 four_by_four = Inr four_by_four_transposed"
  by (simp add: transpose_eval four_by_four_def four_by_four_transposed_def)

lemma scenario_cache_optimized_four:
  "matrix_transpose_cache_optimized 0 1 4 four_by_four = Inr four_by_four_transposed"
  by (simp add: transpose_eval four_by_four_def four_by_four_transposed_def)


section \<open>The iterations in any order, and interleaved\<close>

text \<open>
  The parallel loops hand out whole iterations: elements and groups of eight in the
  position updaters, and, with \<^verbatim>\<open>collapse(2)\<close>, pairs \<open>(i, j)\<close> of elements and of
  tiles in the transposers. An execution order is a permutation of the iterations of the
  sequential loop; \<open>run_order\<close> runs the loop body in that order. Run concurrently, the
  iterations are the threads of \<open>interleave\<close>.
\<close>

lemma permutation_of:
  assumes "mset xs = mset ys"
  shows "distinct xs = distinct ys" "set xs = set ys"
  using assms by (auto dest: mset_eq_setD mset_eq_imp_distinct_iff)

lemma positions_order:
  assumes a: "position_buffers x y vx vy len h" "nat n \<le> len" "mset is = mset (iterations 0 n 1)"
  shows "run_order (positions_elem x y vx vy) is h = update_positions_baseline x y vx vy n h
         \<and> (\<exists>h'. update_positions_baseline x y vx vy n h = Inr h')"
proof -
  have "distinct is" "set is = {0..<n}"
    using permutation_of [OF a(3)] by (simp_all add: iterations_distinct iterations_set_1)
  then have "run_order (positions_elem x y vx vy) is h = Inr (pos_result x y vx vy {0..<n} h)"
    using positions_any_order [OF a(1,2), of "is"] by simp
  then show ?thesis
    by (simp add: positions_baseline_closed [OF a(1,2)])
qed

lemma simd_order:
  assumes a: "position_buffers x y vx vy len h" "nat n \<le> len" "8 dvd n" "n \<le> INT_MAX"
    "mset gs = mset (iterations 0 n 8)"
  shows "run_order (simd_group x y vx vy) gs h = update_positions_simd x y vx vy n h
         \<and> (\<exists>h'. update_positions_simd x y vx vy n h = Inr h')"
proof -
  have "set (iterations 0 n 8) = {t. 0 \<le> t \<and> t < n \<and> 8 dvd t}"
    by (auto simp: iterations_mem)
  then have "distinct gs" "set gs = {t. 0 \<le> t \<and> t < n \<and> 8 dvd t}"
    using permutation_of [OF a(5)] by (simp_all add: iterations_distinct)
  then have "run_order (simd_group x y vx vy) gs h
             = Inr (pos_result x y vx vy (groups {t. 0 \<le> t \<and> t < n \<and> 8 dvd t}) h)"
    using simd_any_order [OF a(1,2,3), of gs] by simp
  then show ?thesis
    by (simp add: groups_all [OF a(3)] positions_simd_closed [OF a(1-4)])
qed

lemma baseline_transpose_order:
  assumes a: "matrix_buffers src dst m g" "m \<le> 46340"
    "mset es = mset (List.product (iterations 0 m 1) (iterations 0 m 1))"
  shows "run_order (\<lambda>(i, j). transpose_elem src dst m i j) es g
         = matrix_transpose_baseline src dst m g
         \<and> (\<exists>g'. matrix_transpose_baseline src dst m g = Inr g')"
proof -
  have "set (List.product (iterations 0 m 1) (iterations 0 m 1)) = square m"
    by (simp add: iterations_set_1 square_def)
  then have es: "distinct es" "set es = square m"
    using permutation_of [OF a(3)] by (simp_all add: distinct_product iterations_distinct)
  have "run_order (\<lambda>(i, j). transpose_elem src dst m i j) es (trans_result src dst m {} g)
        = Inr (trans_result src dst m ({} \<union> set es) g)"
    using es by (intro elems_closed [OF a(1,2)]) simp_all
  then show ?thesis
    by (simp add: es transpose_baseline_closed [OF a(1,2)])
qed

lemma tiles_order:
  assumes a: "matrix_buffers src dst m g" "m \<le> 46340"
    "mset ts = mset (List.product (iterations 0 m block) (iterations 0 m block))"
  shows "run_order (\<lambda>(i, j). tile src dst m i j) ts g
         = matrix_transpose_cache_optimized src dst m g
         \<and> (\<exists>g'. matrix_transpose_cache_optimized src dst m g = Inr g')"
proof -
  have "distinct (List.product (iterations 0 m block) (iterations 0 m block))"
    by (simp add: distinct_product iterations_distinct)
  then have ts: "distinct ts" "set ts = origins m"
    using permutation_of [OF a(3)] by (simp_all only: tile_origins_set)
  have "run_order (\<lambda>(i, j). tile src dst m i j) ts g
        = Inr (trans_result src dst m (covered m (set ts)) g)"
    using ts by (intro tiles_closed [OF a(1,2)]) simp_all
  then show ?thesis
    by (simp add: ts covered_origins transpose_cache_optimized_closed [OF a(1,2)])
qed


subsection \<open>Programs that stay at their cells\<close>

lemma run_then: "run_alone (then_prog p q) h = and_then (run_alone p h) (run_alone q)"
proof (induction p arbitrary: h)
  case (Load p i k)
  then show ?case by (cases "load h p i") simp_all
next
  case (Store p i v k)
  then show ?case by (cases "store h p i v") simp_all
next
  case (Load8 p i k)
  then show ?case by (cases "mm256_load_ps h p i") simp_all
next
  case (Store8 p i v k)
  then show ?case by (cases "mm256_store_ps h p i v") simp_all
qed simp_all


lemma same_shape_refl [simp]: "same_shape h h"
  by (simp add: same_shape_def)

lemma same_shape_sym: "same_shape h g \<Longrightarrow> same_shape g h"
  by (simp add: same_shape_def)

lemma same_shape_trans: "same_shape h g \<Longrightarrow> same_shape g f \<Longrightarrow> same_shape h f"
  by (simp add: same_shape_def)

lemma agree_refl [simp]: "agree S h h"
  by (simp add: agree_def)

lemma agree_sym: "agree S h g \<Longrightarrow> agree S g h"
  by (simp add: agree_def same_shape_def)

lemma agree_trans: "agree S h g \<Longrightarrow> agree S g f \<Longrightarrow> agree S h f"
  by (simp add: agree_def same_shape_def)

lemma store_cell:
  assumes "store h p i v = Inr h'"
  shows "same_shape h h'"
    and "cell_at h' c = (if c = (p, nat i) then v else cell_at h c)"
proof -
  have b: "0 \<le> i" "nat i < length (cells (h p))"
    and h': "h' = h(p := (h p)\<lparr>cells := (cells (h p))[nat i := v]\<rparr>)"
    using assms by (auto simp: store_def split: if_splits)
  show "same_shape h h'"
    by (simp add: h' same_shape_def)
  show "cell_at h' c = (if c = (p, nat i) then v else cell_at h c)"
    using b by (cases c) (auto simp: h' cell_at_def nth_list_update)
qed

lemma store_shape:
  assumes "same_shape h g" "store h p i v = Inr h'"
  shows "\<exists>g'. store g p i v = Inr g'"
  using assms by (auto simp: store_def same_shape_def split: if_splits)

lemma load_agree:
  assumes "agree S h g" "(p, nat i) \<in> S"
  shows "load g p i = load h p i"
proof -
  have "length (cells (g p)) = length (cells (h p))"
    using assms(1) by (simp add: agree_def same_shape_def)
  moreover have "cells (g p) ! nat i = cells (h p) ! nat i"
    using assms by (auto simp: agree_def cell_at_def)
  ultimately show ?thesis by (simp add: load_def)
qed

lemma mm256_load_agree:
  assumes "agree S h g" "\<forall>l<8. (p, nat i + l) \<in> S"
  shows "mm256_load_ps g p i = mm256_load_ps h p i"
proof -
  have len: "length (cells (g p)) = length (cells (h p))" and bs: "base (g p) = base (h p)"
    using assms(1) by (simp_all add: agree_def same_shape_def)
  have "take 8 (drop (nat i) (cells (g p))) = take 8 (drop (nat i) (cells (h p)))"
    if "nat i + 8 \<le> length (cells (h p))"
  proof (rule nth_equalityI)
    show "length (take 8 (drop (nat i) (cells (g p)))) = length (take 8 (drop (nat i) (cells (h p))))"
      by (simp add: len)
  next
    fix l assume "l < length (take 8 (drop (nat i) (cells (g p))))"
    then have l: "l < 8" by simp
    then have "(p, nat i + l) \<in> S" using assms(2) by simp
    then have "cells (g p) ! (nat i + l) = cells (h p) ! (nat i + l)"
      using assms(1) by (auto simp: agree_def cell_at_def)
    then show "take 8 (drop (nat i) (cells (g p))) ! l = take 8 (drop (nat i) (cells (h p))) ! l"
      using l that by (simp add: len)
  qed
  then show ?thesis
    by (simp add: mm256_load_ps_def aligned32_def len bs)
qed

lemma mm256_store_cell:
  assumes "mm256_store_ps h p i v = Inr h'" "8 \<le> length v"
  shows "same_shape h h'"
    and "cell_at h' c =
           (if fst c = p \<and> nat i \<le> snd c \<and> snd c < nat i + 8 then v ! (snd c - nat i)
            else cell_at h c)"
proof -
  let ?c = "cells (h p)"
  have b: "0 \<le> i" "nat i + 8 \<le> length ?c"
    and h': "h' = h(p := (h p)\<lparr>cells := take (nat i) ?c @ take 8 v @ drop (nat i + 8) ?c\<rparr>)"
    using assms(1) by (auto simp: mm256_store_ps_def split: if_splits)
  show "same_shape h h'"
    using b assms(2) by (simp add: h' same_shape_def)
  show "cell_at h' c =
           (if fst c = p \<and> nat i \<le> snd c \<and> snd c < nat i + 8 then v ! (snd c - nat i)
            else cell_at h c)"
  proof (cases c)
    case (Pair q k)
    have "(take (nat i) ?c @ take 8 v @ drop (nat i + 8) ?c) ! k =
          (if nat i \<le> k \<and> k < nat i + 8 then v ! (k - nat i) else ?c ! k)"
    proof -
      consider "k < nat i" | "nat i \<le> k" "k < nat i + 8" | "nat i + 8 \<le> k" by linarith
      then show ?thesis
      proof cases
        case 1
        then show ?thesis using b by (simp add: nth_append)
      next
        case 2
        then have "k - nat i < 8" by linarith
        then show ?thesis using 2 b assms(2) by (simp add: nth_append)
      next
        case 3
        then have "\<not> k < nat i" "\<not> k - nat i < 8" by linarith+
        then show ?thesis using 3 b assms(2) by (simp add: nth_append)
      qed
    qed
    then show ?thesis
      by (simp add: Pair h' cell_at_def)
  qed
qed

lemma mm256_store_shape:
  assumes "same_shape h g" "mm256_store_ps h p i v = Inr h'"
  shows "\<exists>g'. mm256_store_ps g p i v = Inr g'"
  using assms by (auto simp: mm256_store_ps_def aligned32_def same_shape_def split: if_splits)

lemma mm256_store_outside:
  assumes "mm256_store_ps h p i v = Inr h'" "8 \<le> length v" "\<forall>l<8. (p, nat i + l) \<in> S"
    "c \<notin> S"
  shows "cell_at h' c = cell_at h c"
proof -
  have n: "\<not> (fst c = p \<and> nat i \<le> snd c \<and> snd c < nat i + 8)"
  proof
    assume x: "fst c = p \<and> nat i \<le> snd c \<and> snd c < nat i + 8"
    then have "snd c - nat i < 8" by linarith
    then have "(p, nat i + (snd c - nat i)) \<in> S" using assms(3) by blast
    then show False using x assms(4) by (cases c) simp
  qed
  have "cell_at h' c =
          (if fst c = p \<and> nat i \<le> snd c \<and> snd c < nat i + 8 then v ! (snd c - nat i)
           else cell_at h c)"
    by (rule mm256_store_cell(2) [OF assms(1,2)])
  also have "\<dots> = cell_at h c"
    using n by (rule if_not_P)
  finally show ?thesis .
qed

lemma store_agree:
  assumes "agree S h g" "store h p i v = Inr h'" "store g p i v = Inr g'"
  shows "agree S h' g'"
  using assms store_cell [OF assms(2)] store_cell [OF assms(3)]
  by (auto simp: agree_def same_shape_def)

lemma mm256_store_agree:
  assumes "agree S h g" "mm256_store_ps h p i v = Inr h'" "mm256_store_ps g p i v = Inr g'"
    "8 \<le> length v"
  shows "agree S h' g'"
  using assms(1) mm256_store_cell [OF assms(2,4)] mm256_store_cell [OF assms(3,4)]
  by (auto simp: agree_def same_shape_def)


lemma confined_agree:
  assumes "agree S h g" "confined S p h"
  shows "confined S p g
         \<and> (\<exists>r r'. run_alone p h = Inr r \<and> run_alone p g = Inr r' \<and> agree S r r'
               \<and> same_shape g r' \<and> (\<forall>c. c \<notin> S \<longrightarrow> cell_at r' c = cell_at g c))"
  using assms
proof (induction p arbitrary: h g)
  case Done
  then show ?case by simp
next
  case (Fault e)
  then show ?case by simp
next
  case (Load p i k)
  from Load.prems(2) obtain v where
    m: "(p, nat i) \<in> S" and l: "load h p i = Inr v" and c: "confined S (k v) h"
    by (auto split: sum.splits)
  have l': "load g p i = Inr v"
    using load_agree [OF Load.prems(1) m] l by simp
  show ?case
    using Load.IH [OF rangeI Load.prems(1) c] m l l' by simp
next
  case (Store p i v k)
  from Store.prems(2) obtain h' where
    m: "(p, nat i) \<in> S" and s: "store h p i v = Inr h'" and c: "confined S k h'"
    by (auto split: sum.splits)
  have "same_shape h g" using Store.prems(1) by (simp add: agree_def)
  then obtain g' where s': "store g p i v = Inr g'"
    using store_shape [OF _ s] by blast
  have a: "agree S h' g'"
    by (rule store_agree [OF Store.prems(1) s s'])
  from Store.IH [OF a c] obtain r r' where
    r: "confined S k g'" "run_alone k h' = Inr r" "run_alone k g' = Inr r'" "agree S r r'"
      "same_shape g' r'" "\<forall>c. c \<notin> S \<longrightarrow> cell_at r' c = cell_at g' c"
    by blast
  have "same_shape g r'"
    using same_shape_trans [OF store_cell(1) [OF s'] r(5)] .
  moreover have "\<forall>c. c \<notin> S \<longrightarrow> cell_at r' c = cell_at g c"
    using r(6) store_cell(2) [OF s'] m by auto
  ultimately show ?case
    using m s s' r by simp
next
  case (Load8 p i k)
  from Load8.prems(2) obtain v where
    m: "\<forall>l<8. (p, nat i + l) \<in> S" and l: "mm256_load_ps h p i = Inr v"
    and c: "confined S (k v) h"
    by (auto split: sum.splits)
  have l': "mm256_load_ps g p i = Inr v"
    using mm256_load_agree [OF Load8.prems(1) m] l by simp
  show ?case
    using Load8.IH [OF rangeI Load8.prems(1) c] m l l' by simp
next
  case (Store8 p i v k)
  from Store8.prems(2) obtain h' where
    m: "\<forall>l<8. (p, nat i + l) \<in> S" and n: "8 \<le> length v"
    and s: "mm256_store_ps h p i v = Inr h'" and c: "confined S k h'"
    by (auto split: sum.splits)
  have "same_shape h g" using Store8.prems(1) by (simp add: agree_def)
  then obtain g' where s': "mm256_store_ps g p i v = Inr g'"
    using mm256_store_shape [OF _ s] by blast
  have a: "agree S h' g'"
    by (rule mm256_store_agree [OF Store8.prems(1) s s' n])
  from Store8.IH [OF a c] obtain r r' where
    r: "confined S k g'" "run_alone k h' = Inr r" "run_alone k g' = Inr r'" "agree S r r'"
      "same_shape g' r'" "\<forall>c. c \<notin> S \<longrightarrow> cell_at r' c = cell_at g' c"
    by blast
  have "same_shape g r'"
    using same_shape_trans [OF mm256_store_cell(1) [OF s' n] r(5)] .
  moreover have "\<forall>c. c \<notin> S \<longrightarrow> cell_at r' c = cell_at g c"
    using r(6) mm256_store_outside [OF s' n m] by simp
  ultimately show ?case
    using m n s s' r by simp
qed

lemma run_confined:
  assumes "confined S p h"
  shows "\<exists>r. run_alone p h = Inr r \<and> same_shape h r \<and> (\<forall>c. c \<notin> S \<longrightarrow> cell_at r c = cell_at h c)"
  using confined_agree [OF agree_refl assms] by auto

lemma step_confined:
  assumes "confined S p h"
  shows "\<exists>p' h'. prog_step p h = Inr (p', h') \<and> confined S p' h'
           \<and> run_alone p' h' = run_alone p h \<and> same_shape h h'
           \<and> (\<forall>c. c \<notin> S \<longrightarrow> cell_at h' c = cell_at h c)"
proof (cases p)
  case Done
  then show ?thesis by simp
next
  case (Fault e)
  then show ?thesis using assms by simp
next
  case (Load q i k)
  then show ?thesis using assms by (auto split: sum.splits)
next
  case (Store q i v k)
  from assms obtain h' where
    m: "(q, nat i) \<in> S" and s: "store h q i v = Inr h'" and c: "confined S k h'"
    unfolding Store by (auto split: sum.splits)
  have "\<forall>c. c \<notin> S \<longrightarrow> cell_at h' c = cell_at h c"
    using store_cell(2) [OF s] m by auto
  then show ?thesis
    using s c store_cell(1) [OF s] by (simp add: Store)
next
  case (Load8 q i k)
  then show ?thesis using assms by (auto split: sum.splits)
next
  case (Store8 q i v k)
  from assms obtain h' where
    m: "\<forall>l<8. (q, nat i + l) \<in> S" and n: "8 \<le> length v"
    and s: "mm256_store_ps h q i v = Inr h'" and c: "confined S k h'"
    unfolding Store8 by (auto split: sum.splits)
  have "\<forall>c. c \<notin> S \<longrightarrow> cell_at h' c = cell_at h c"
    using mm256_store_outside [OF s n m] by simp
  then show ?thesis
    using s c mm256_store_cell(1) [OF s n] by (simp add: Store8)
qed


lemma final_Done [simp]: "final Done h = h"
  by (simp add: final_def)

lemma isolated_init:
  assumes "\<forall>t<length ts0. confined (S t) (ts0 ! t) h0"
  shows "isolated S ts0 h0 ts0 h0"
  using assms by (simp add: isolated_def)

lemma isolated_step:
  assumes d: "\<forall>t<length ts0. \<forall>u<length ts0. t \<noteq> u \<longrightarrow> S t \<inter> S u = {}"
    and i: "isolated S ts0 h0 ts h" and u: "u < length ts"
  shows "\<exists>p' h'. prog_step (ts ! u) h = Inr (p', h') \<and> isolated S ts0 h0 (ts[u := p']) h'"
proof -
  have len: "length ts = length ts0" and sh: "same_shape h0 h"
    and c: "\<And>t. t < length ts0 \<Longrightarrow> confined (S t) (ts ! t) h"
    and a: "\<And>t. t < length ts0 \<Longrightarrow> agree (S t) (final (ts0 ! t) h0) (final (ts ! t) h)"
    and o: "\<And>c. \<forall>t<length ts0. c \<notin> S t \<Longrightarrow> cell_at h c = cell_at h0 c"
    using i unfolding isolated_def by blast+
  have u0: "u < length ts0" using u len by simp
  from step_confined [OF c [OF u0]] obtain p' h' where
    st: "prog_step (ts ! u) h = Inr (p', h')" "confined (S u) p' h'"
      "run_alone p' h' = run_alone (ts ! u) h" "same_shape h h'"
      "\<forall>c. c \<notin> S u \<longrightarrow> cell_at h' c = cell_at h c"
    by blast
  have other: "confined (S t) (ts ! t) h' \<and> agree (S t) (final (ts ! t) h) (final (ts ! t) h')"
    if t: "t < length ts0" "t \<noteq> u" for t
  proof -
    have "S t \<inter> S u = {}" using d t u0 by blast
    then have "\<forall>c\<in>S t. cell_at h' c = cell_at h c"
      using st(5) by blast
    then have ag: "agree (S t) h h'"
      using st(4) by (simp add: agree_def)
    from confined_agree [OF ag c [OF t(1)]] show ?thesis
      by (auto simp: final_def)
  qed
  have "isolated S ts0 h0 (ts[u := p']) h'"
    unfolding isolated_def
  proof (intro conjI allI impI)
    show "length (ts[u := p']) = length ts0" using len by simp
    show "same_shape h0 h'" by (rule same_shape_trans [OF sh st(4)])
  next
    fix t assume t: "t < length ts0"
    show "confined (S t) (ts[u := p'] ! t) h'"
    proof (cases "t = u")
      case True
      then show ?thesis using st(2) u by simp
    next
      case False
      then show ?thesis using other [OF t] by simp
    qed
    show "agree (S t) (final (ts0 ! t) h0) (final (ts[u := p'] ! t) h')"
    proof (cases "t = u")
      case True
      obtain r where "run_alone (ts ! u) h = Inr r"
        using run_confined [OF c [OF u0]] by blast
      then have "final p' h' = final (ts ! u) h" by (simp add: final_def st(3))
      then show ?thesis using a [OF t] True u by simp
    next
      case False
      have "agree (S t) (final (ts0 ! t) h0) (final (ts ! t) h')"
        using agree_trans [OF a [OF t]] other [OF t False] by blast
      then show ?thesis using False by simp
    qed
  next
    fix c assume n: "\<forall>t<length ts0. c \<notin> S t"
    then have "c \<notin> S u" using u0 by blast
    then have "cell_at h' c = cell_at h c" using st(5) by blast
    then show "cell_at h' c = cell_at h0 c" using o [OF n] by simp
  qed
  then show ?thesis using st(1) by blast
qed

lemma interleave_isolated:
  assumes d: "\<forall>t<length ts0. \<forall>u<length ts0. t \<noteq> u \<longrightarrow> S t \<inter> S u = {}"
    and i: "isolated S ts0 h0 ts h"
  shows "\<exists>ts' h'. interleave sch ts h = Inr (ts', h') \<and> isolated S ts0 h0 ts' h'"
  using i
proof (induction sch arbitrary: ts h)
  case Nil
  then show ?case by simp
next
  case (Cons u sch)
  show ?case
  proof (cases "u < length ts")
    case True
    from isolated_step [OF d Cons.prems True] obtain p' h' where
      st: "prog_step (ts ! u) h = Inr (p', h')" "isolated S ts0 h0 (ts[u := p']) h'"
      by blast
    show ?thesis
      using Cons.IH [OF st(2)] st(1) True by simp
  next
    case False
    then show ?thesis using Cons.IH [OF Cons.prems] by simp
  qed
qed

lemma isolated_done_unique:
  assumes i: "isolated S ts0 h0 ts h" "all_done ts"
    and i': "isolated S ts0 h0 ts' h'" "all_done ts'"
  shows "h = h'"
proof
  fix p
  have sh: "same_shape h0 h" "same_shape h0 h'"
    using i(1) i'(1) by (simp_all add: isolated_def)
  have cell: "cell_at h c = cell_at h' c" for c
  proof (cases "\<forall>t<length ts0. c \<notin> S t")
    case True
    have "cell_at h c = cell_at h0 c" "cell_at h' c = cell_at h0 c"
      using i(1) i'(1) True unfolding isolated_def by blast+
    then show ?thesis by simp
  next
    case False
    then obtain t where t: "t < length ts0" "c \<in> S t" by blast
    have "ts ! t = Done" "ts' ! t = Done"
      using i i' t(1) by (simp_all add: isolated_def all_done_def)
    then have "agree (S t) (final (ts0 ! t) h0) h" "agree (S t) (final (ts0 ! t) h0) h'"
      using i(1) i'(1) t(1) by (auto simp: isolated_def)
    then show ?thesis using t(2) by (simp add: agree_def)
  qed
  have "cells (h p) = cells (h' p)"
  proof (rule nth_equalityI)
    show "length (cells (h p)) = length (cells (h' p))"
      using sh by (simp add: same_shape_def)
  next
    fix k assume "k < length (cells (h p))"
    show "cells (h p) ! k = cells (h' p) ! k"
      using cell [of "(p, k)"] by (simp add: cell_at_def)
  qed
  moreover have "base (h p) = base (h' p)"
    using sh by (simp add: same_shape_def)
  ultimately show "h p = h' p" by simp
qed

lemma interleave_append:
  "interleave (s1 @ s2) ts h =
     (case interleave s1 ts h of Inl e \<Rightarrow> Inl e | Inr (ts', h') \<Rightarrow> interleave s2 ts' h')"
proof (induction s1 arbitrary: ts h)
  case Nil
  then show ?case by simp
next
  case (Cons u s1)
  then show ?case by (simp split: sum.splits prod.splits)
qed

lemma finish_thread:
  assumes "confined S p h" "u < length ts" "ts ! u = p"
  shows "\<exists>m h'. interleave (replicate m u) ts h = Inr (ts[u := Done], h')
           \<and> run_alone p h = Inr h'"
  using assms
proof (induction p arbitrary: ts h)
  case Done
  have "ts[u := Done] = ts"
    using Done(3) list_update_id by metis
  then have "interleave (replicate 0 u) ts h = Inr (ts[u := Done], h)"
    by simp
  then show ?case by (intro exI [of _ 0]) simp
next
  case (Fault e)
  then show ?case by simp
next
  case (Load q i k)
  from Load.prems(1) obtain v where l: "load h q i = Inr v" and c: "confined S (k v) h"
    by (auto split: sum.splits)
  from Load.IH [OF rangeI c, of "ts[u := k v]"] Load.prems(2) obtain m h' where
    "interleave (replicate m u) (ts[u := k v]) h = Inr (ts[u := Done], h')"
    "run_alone (k v) h = Inr h'"
    by auto
  then have "interleave (replicate (Suc m) u) ts h = Inr (ts[u := Done], h')
             \<and> run_alone (Load q i k) h = Inr h'"
    using Load.prems(2,3) l by simp
  then show ?case by blast
next
  case (Store q i v k)
  from Store.prems(1) obtain h1 where s: "store h q i v = Inr h1" and c: "confined S k h1"
    by (auto split: sum.splits)
  from Store.IH [OF c, of "ts[u := k]"] Store.prems(2) obtain m h' where
    "interleave (replicate m u) (ts[u := k]) h1 = Inr (ts[u := Done], h')"
    "run_alone k h1 = Inr h'"
    by auto
  then have "interleave (replicate (Suc m) u) ts h = Inr (ts[u := Done], h')
             \<and> run_alone (Store q i v k) h = Inr h'"
    using Store.prems(2,3) s by simp
  then show ?case by blast
next
  case (Load8 q i k)
  from Load8.prems(1) obtain v where l: "mm256_load_ps h q i = Inr v"
    and c: "confined S (k v) h"
    by (auto split: sum.splits)
  from Load8.IH [OF rangeI c, of "ts[u := k v]"] Load8.prems(2) obtain m h' where
    "interleave (replicate m u) (ts[u := k v]) h = Inr (ts[u := Done], h')"
    "run_alone (k v) h = Inr h'"
    by auto
  then have "interleave (replicate (Suc m) u) ts h = Inr (ts[u := Done], h')
             \<and> run_alone (Load8 q i k) h = Inr h'"
    using Load8.prems(2,3) l by simp
  then show ?case by blast
next
  case (Store8 q i v k)
  from Store8.prems(1) obtain h1 where s: "mm256_store_ps h q i v = Inr h1"
    and c: "confined S k h1"
    by (auto split: sum.splits)
  from Store8.IH [OF c, of "ts[u := k]"] Store8.prems(2) obtain m h' where
    "interleave (replicate m u) (ts[u := k]) h1 = Inr (ts[u := Done], h')"
    "run_alone k h1 = Inr h'"
    by auto
  then have "interleave (replicate (Suc m) u) ts h = Inr (ts[u := Done], h')
             \<and> run_alone (Store8 q i v k) h = Inr h'"
    using Store8.prems(2,3) s by simp
  then show ?case by blast
qed


subsection \<open>Interleaved runs\<close>

lemma sequential_schedule:
  assumes d: "\<forall>t<length ts0. \<forall>u<length ts0. t \<noteq> u \<longrightarrow> S t \<inter> S u = {}"
    and c: "\<forall>t<length ts0. confined (S t) (ts0 ! t) h0"
  shows "k \<le> length ts0 \<Longrightarrow>
         \<exists>sch h'. interleave sch ts0 h0 = Inr (replicate k Done @ drop k ts0, h')
           \<and> run_order (\<lambda>p. run_alone p) (take k ts0) h0 = Inr h'"
proof (induction k)
  case 0
  have "interleave [] ts0 h0 = Inr (replicate 0 Done @ drop 0 ts0, h0)" by simp
  then show ?case by (intro exI [of _ "[]"] exI [of _ h0]) simp
next
  case (Suc k)
  then have k: "k < length ts0" by simp
  let ?ts1 = "replicate k Done @ drop k ts0"
  from Suc.IH k obtain sch h1 where
    s1: "interleave sch ts0 h0 = Inr (?ts1, h1)"
    and r1: "run_order (\<lambda>p. run_alone p) (take k ts0) h0 = Inr h1"
    by auto
  have "isolated S ts0 h0 ?ts1 h1"
    using interleave_isolated [OF d isolated_init [OF c], of sch] s1 by simp
  then have cf: "confined (S k) (?ts1 ! k) h1"
    using k by (simp add: isolated_def)
  have nk: "?ts1 ! k = ts0 ! k"
    using k by (simp add: nth_append)
  have lk: "k < length ?ts1" using k by simp
  from finish_thread [OF cf lk refl] obtain m h2 where
    f: "interleave (replicate m k) ?ts1 h1 = Inr (?ts1[k := Done], h2)"
    and r2: "run_alone (ts0 ! k) h1 = Inr h2"
    using nk by auto
  have "drop k ts0 = ts0 ! k # drop (Suc k) ts0"
    using k by (simp add: Cons_nth_drop_Suc)
  then have "?ts1[k := Done] = replicate k Done @ Done # drop (Suc k) ts0"
    by (simp add: list_update_append)
  also have "\<dots> = replicate (Suc k) Done @ drop (Suc k) ts0"
    by (simp add: replicate_append_same)
  finally have u: "?ts1[k := Done] = replicate (Suc k) Done @ drop (Suc k) ts0" .
  have "interleave (sch @ replicate m k) ts0 h0
        = Inr (replicate (Suc k) Done @ drop (Suc k) ts0, h2)"
    using s1 f u by (simp add: interleave_append)
  moreover have "run_order (\<lambda>p. run_alone p) (take (Suc k) ts0) h0 = Inr h2"
    using k r1 r2 by (simp add: take_Suc_conv_app_nth run_order_append)
  ultimately show ?case by blast
qed

lemma interleavings_agree:
  assumes d: "\<forall>t<length ts0. \<forall>u<length ts0. t \<noteq> u \<longrightarrow> S t \<inter> S u = {}"
    and c: "\<forall>t<length ts0. confined (S t) (ts0 ! t) h0"
  shows "\<exists>r. run_order (\<lambda>p. run_alone p) ts0 h0 = Inr r
           \<and> (\<forall>sch. \<exists>ts' h'. interleave sch ts0 h0 = Inr (ts', h')
                  \<and> length ts' = length ts0
                  \<and> (\<forall>t<length ts0. confined (S t) (ts' ! t) h')
                  \<and> (all_done ts' \<longrightarrow> h' = r))
           \<and> (\<exists>sch ts'. interleave sch ts0 h0 = Inr (ts', r) \<and> all_done ts')"
proof -
  from sequential_schedule [OF d c, of "length ts0"] obtain sq r where
    sq: "interleave sq ts0 h0 = Inr (replicate (length ts0) Done, r)"
    and r: "run_order (\<lambda>p. run_alone p) ts0 h0 = Inr r"
    by auto
  have dn: "all_done (replicate (length ts0) Done)"
    by (simp add: all_done_def)
  have ir: "isolated S ts0 h0 (replicate (length ts0) Done) r"
    using interleave_isolated [OF d isolated_init [OF c], of sq] sq by simp
  have "\<exists>ts' h'. interleave sch ts0 h0 = Inr (ts', h')
          \<and> length ts' = length ts0
          \<and> (\<forall>t<length ts0. confined (S t) (ts' ! t) h')
          \<and> (all_done ts' \<longrightarrow> h' = r)" for sch
  proof -
    from interleave_isolated [OF d isolated_init [OF c], of sch] obtain ts' h' where
      x: "interleave sch ts0 h0 = Inr (ts', h')" "isolated S ts0 h0 ts' h'"
      by blast
    have "all_done ts' \<longrightarrow> h' = r"
      using isolated_done_unique [OF x(2) _ ir dn] by blast
    moreover have "length ts' = length ts0" "\<forall>t<length ts0. confined (S t) (ts' ! t) h'"
      using x(2) by (simp_all add: isolated_def)
    ultimately show ?thesis using x(1) by blast
  qed
  then show ?thesis using r sq dn by blast
qed

lemma run_order_map: "run_order body (map f xs) s = run_order (\<lambda>x. body (f x)) xs s"
  by (induction xs arbitrary: s) (auto split: sum.splits)

lemma independentI:
  assumes eq: "\<And>i g. run_alone (prog i) g = body i g"
    and dist: "distinct its"
    and d: "\<And>i j. i \<in> set its \<Longrightarrow> j \<in> set its \<Longrightarrow> i \<noteq> j \<Longrightarrow> fp i \<inter> fp j = {}"
    and c: "\<And>i. i \<in> set its \<Longrightarrow> confined (fp i) (prog i) h"
    and perm: "\<And>is. mset is = mset its \<Longrightarrow> run_order body is h = Inr r"
  shows "independent body prog fp its h r"
proof -
  let ?ts = "map prog its" and ?S = "\<lambda>t. fp (its ! t)"
  have d': "\<forall>t<length ?ts. \<forall>u<length ?ts. t \<noteq> u \<longrightarrow> ?S t \<inter> ?S u = {}"
    using d dist by (auto simp: nth_eq_iff_index_eq)
  have c': "\<forall>t<length ?ts. confined (?S t) (?ts ! t) h"
    using c by simp
  have "(\<lambda>i. run_alone (prog i)) = body"
    by (intro ext) (rule eq)
  then have "run_order (\<lambda>p. run_alone p) ?ts h = Inr r"
    using perm [OF refl] by (simp add: run_order_map)
  then have
    "(\<forall>sch. \<exists>ts' h'. interleave sch ?ts h = Inr (ts', h')
          \<and> length ts' = length its
          \<and> (\<forall>t<length its. confined (fp (its ! t)) (ts' ! t) h')
          \<and> (all_done ts' \<longrightarrow> h' = r))
     \<and> (\<exists>sch ts'. interleave sch ?ts h = Inr (ts', r) \<and> all_done ts')"
    using interleavings_agree [OF d' c'] by simp
  then show ?thesis
    unfolding independent_def using eq d c perm by blast
qed

subsection \<open>The loop bodies as programs\<close>

lemma and_then_return [simp]: "and_then m Inr = m"
  by (cases m) simp_all

lemma positions_prog_run:
  "run_alone (positions_prog x y vx vy i) h = positions_elem x y vx vy i h"
  by (simp add: positions_prog_def positions_elem_def)

lemma simd_prog_run: "run_alone (simd_prog x y vx vy i) h = simd_group x y vx vy i h"
  by (simp add: simd_prog_def simd_group_def)

lemma elem_prog_run: "run_alone (elem_prog src dst n ii jj) h = transpose_elem src dst n ii jj h"
proof (cases "index2 ii n jj")
  case (Inl e)
  then show ?thesis by (simp add: elem_prog_def transpose_elem_def)
next
  case (Inr ks)
  show ?thesis
  proof (cases "load h src ks")
    case (Inl e)
    then show ?thesis using Inr by (simp add: elem_prog_def transpose_elem_def)
  next
    case v: (Inr v)
    show ?thesis
      using Inr v by (cases "index2 jj n ii") (simp_all add: elem_prog_def transpose_elem_def)
  qed
qed

lemma positions_confined:
  assumes "position_buffers x y vx vy len h" "0 \<le> i" "nat i < len"
  shows "confined (positions_cells x y vx vy i) (positions_prog x y vx vy i) h"
proof -
  have len: "length (cells (h x)) = len" "length (cells (h y)) = len"
            "length (cells (h vx)) = len" "length (cells (h vy)) = len"
    using assms(1) by (auto simp: position_buffers_def)
  show ?thesis
    using assms(2,3) len
    by (simp add: positions_prog_def positions_cells_def load_def store_def)
qed

lemma positions_cells_disjoint:
  assumes "0 \<le> i" "0 \<le> j" "i \<noteq> j"
  shows "positions_cells x y vx vy i \<inter> positions_cells x y vx vy j = {}"
  using assms by (auto simp: positions_cells_def)

lemma simd_cells_disjoint:
  assumes "0 \<le> i" "0 \<le> j" "8 dvd i" "8 dvd j" "i \<noteq> j"
  shows "simd_cells x y vx vy i \<inter> simd_cells x y vx vy j = {}"
proof -
  have "i + 8 \<le> j \<or> j + 8 \<le> i"
    using assms(3,4,5) by (auto elim!: dvdE)
  then have "{nat i..<nat i + 8} \<inter> {nat j..<nat j + 8} = {}"
    using assms(1,2) by auto
  then show ?thesis by (auto simp: simd_cells_def)
qed


lemma simd_confined:
  assumes pb: "position_buffers x y vx vy len h" and i: "0 \<le> i" "8 dvd i" "nat i + 8 \<le> len"
  shows "confined (simd_cells x y vx vy i) (simd_prog x y vx vy i) h"
proof -
  have len: "length (cells (h x)) = len" "length (cells (h y)) = len"
            "length (cells (h vx)) = len" "length (cells (h vy)) = len"
    and bs: "base (h x) mod 32 = 0" "base (h y) mod 32 = 0"
            "base (h vx) mod 32 = 0" "base (h vy) mod 32 = 0"
    using pb by (auto simp: position_buffers_def)
  have al32: "\<And>H p. base (H p) mod 32 = 0 \<Longrightarrow> aligned32 H p i"
    using i(2) by (auto simp: aligned32_def dvd_def)
  show ?thesis
    using i len bs
    by (simp add: simd_prog_def simd_cells_def mm256_load_ps_def mm256_store_ps_def
        mm256_add_ps_def al32)
qed

lemma elem_confined:
  assumes "nat (n * n) \<le> length (cells (h src))" "nat (n * n) \<le> length (cells (h dst))"
    and "n \<le> 46340" and ij: "0 \<le> ii" "ii < n" "0 \<le> jj" "jj < n"
    and S: "elem_cells src dst n ii jj \<subseteq> S"
  shows "confined S (elem_prog src dst n ii jj) h"
proof -
  have b1: "0 \<le> ii * n + jj" "nat (ii * n + jj) < length (cells (h src))"
    using index_in_square [OF ij(1-4)] assms(1) by linarith+
  have b2: "0 \<le> jj * n + ii" "nat (jj * n + ii) < length (cells (h dst))"
    using index_in_square [OF ij(3,4,1,2)] assms(2) by linarith+
  show ?thesis
    using b1 b2 ij assms(3) S
    by (simp add: elem_prog_def elem_cells_def index2_in_square load_def store_def)
qed

lemma index_injective:
  fixes n :: int
  assumes "0 \<le> b" "b < n" "0 \<le> b'" "b' < n" "a * n + b = a' * n + b'"
  shows "a = a' \<and> b = b'"
proof -
  have "(a * n + b) div n = a" "(a' * n + b') div n = a'"
    using assms(1-4) by simp_all
  then have "a = a'" using assms(5) by simp
  then show ?thesis using assms(5) by simp
qed

lemma elem_cells_disjoint:
  assumes sd: "src \<noteq> dst" and e: "(ii, jj) \<in> square n" "(ii', jj') \<in> square n"
    "(ii, jj) \<noteq> (ii', jj')"
  shows "elem_cells src dst n ii jj \<inter> elem_cells src dst n ii' jj' = {}"
proof -
  have r: "0 \<le> ii" "ii < n" "0 \<le> jj" "jj < n" "0 \<le> ii'" "ii' < n" "0 \<le> jj'" "jj' < n"
    using e(1,2) by (auto simp: square_def)
  have s: "nat (ii * n + jj) \<noteq> nat (ii' * n + jj')"
  proof
    assume "nat (ii * n + jj) = nat (ii' * n + jj')"
    then have "ii * n + jj = ii' * n + jj'"
      using index_in_square [OF r(1-4)] index_in_square [OF r(5-8)] by linarith
    then show False
      using index_injective [OF r(3,4,7,8)] e(3) by blast
  qed
  have d: "nat (jj * n + ii) \<noteq> nat (jj' * n + ii')"
  proof
    assume "nat (jj * n + ii) = nat (jj' * n + ii')"
    then have "jj * n + ii = jj' * n + ii'"
      using index_in_square [OF r(3,4,1,2)] index_in_square [OF r(7,8,5,6)] by linarith
    then show False
      using index_injective [OF r(1,2,5,6)] e(3) by blast
  qed
  show ?thesis
    using sd s d by (auto simp: elem_cells_def)
qed

lemma confined_then:
  assumes "confined S p h" "\<And>r. run_alone p h = Inr r \<Longrightarrow> confined S q r"
  shows "confined S (then_prog p q) h"
  using assms
proof (induction p arbitrary: h)
  case Done
  then show ?case by simp
next
  case (Fault e)
  then show ?case by simp
next
  case (Load p i k)
  from Load.prems(1) obtain v where l: "load h p i = Inr v" and c: "confined S (k v) h"
    and m: "(p, nat i) \<in> S"
    by (auto split: sum.splits)
  have "confined S (then_prog (k v) q) h"
    using Load.prems(2) l by (intro Load.IH [OF rangeI c]) simp
  then show ?case using l m by simp
next
  case (Store p i v k)
  from Store.prems(1) obtain h1 where s: "store h p i v = Inr h1" and c: "confined S k h1"
    and m: "(p, nat i) \<in> S"
    by (auto split: sum.splits)
  have "confined S (then_prog k q) h1"
    using Store.prems(2) s by (intro Store.IH [OF c]) simp
  then show ?case using s m by simp
next
  case (Load8 p i k)
  from Load8.prems(1) obtain v where l: "mm256_load_ps h p i = Inr v"
    and c: "confined S (k v) h" and m: "\<forall>l<8. (p, nat i + l) \<in> S"
    by (auto split: sum.splits)
  have "confined S (then_prog (k v) q) h"
    using Load8.prems(2) l by (intro Load8.IH [OF rangeI c]) simp
  then show ?case using l m by simp
next
  case (Store8 p i v k)
  from Store8.prems(1) obtain h1 where s: "mm256_store_ps h p i v = Inr h1"
    and c: "confined S k h1" and m: "\<forall>l<8. (p, nat i + l) \<in> S" "8 \<le> length v"
    by (auto split: sum.splits)
  have "confined S (then_prog k q) h1"
    using Store8.prems(2) s by (intro Store8.IH [OF c]) simp
  then show ?case using s m by simp
qed


lemma tile_row_prog_run:
  "run_alone (tile_row_prog src dst n j ii jj) h = tile_row src dst n j ii jj h"
proof (induction src dst n j ii jj h rule: tile_row.induct)
  case (1 src dst n j ii jj h)
  show ?case
  proof (cases "int_add j block")
    case (Inl e)
    then show ?thesis
      by (subst tile_row_prog.simps, subst tile_row.simps) simp
  next
    case (Inr jend)
    show ?thesis
    proof (cases "jj < jend \<and> jj < n")
      case True
      then show ?thesis
        using 1 [OF Inr True] Inr
        by (subst tile_row_prog.simps, subst tile_row.simps)
           (simp add: run_then elem_prog_run split: sum.splits)
    next
      case False
      then show ?thesis
        using Inr by (subst tile_row_prog.simps, subst tile_row.simps) auto
    qed
  qed
qed

lemma tile_rows_prog_run:
  "run_alone (tile_rows_prog src dst n i j ii) h = tile_rows src dst n i j ii h"
proof (induction src dst n i j ii h rule: tile_rows.induct)
  case (1 src dst n i j ii h)
  show ?case
  proof (cases "int_add i block")
    case (Inl e)
    then show ?thesis
      by (subst tile_rows_prog.simps, subst tile_rows.simps) simp
  next
    case (Inr iend)
    show ?thesis
    proof (cases "ii < iend \<and> ii < n")
      case True
      then show ?thesis
        using 1 [OF Inr True] Inr
        by (subst tile_rows_prog.simps, subst tile_rows.simps)
           (simp add: run_then tile_row_prog_run split: sum.splits)
    next
      case False
      then show ?thesis
        using Inr by (subst tile_rows_prog.simps, subst tile_rows.simps) auto
    qed
  qed
qed

lemma tile_prog_run: "run_alone (tile_prog src dst n i j) h = tile src dst n i j h"
proof (cases "and_then (index2 i n j) (\<lambda>k. int_add k block)")
  case (Inl e)
  then show ?thesis
    by (cases "index2 i n j") (auto simp: tile_prog_def tile_def mm_prefetch_def)
next
  case (Inr a)
  then show ?thesis
    by (cases "index2 i n j")
       (auto simp: tile_prog_def tile_def mm_prefetch_def tile_rows_prog_run)
qed

lemma run_same_lengths:
  assumes "confined S p h" "run_alone p h = Inr r"
  shows "length (cells (r q)) = length (cells (h q))"
  using run_confined [OF assms(1)] assms(2) by (auto simp: same_shape_def)

lemma tile_row_confined:
  assumes "nat (n * n) \<le> length (cells (h src))" "nat (n * n) \<le> length (cells (h dst))"
    and "n \<le> 46340" and "0 \<le> ii" "ii < n" "0 \<le> j" "j < n" "j \<le> jj"
    and "\<forall>jj'. j \<le> jj' \<and> jj' < min (j + block) n \<longrightarrow> elem_cells src dst n ii jj' \<subseteq> S"
  shows "confined S (tile_row_prog src dst n j ii jj) h"
  using assms
proof (induction src dst n j ii jj arbitrary: h rule: tile_row_prog.induct)
  case (1 src dst n j ii jj)
  have j: "j \<le> 2147483631" using 1(4,8) by simp
  note ok = int_add_block [OF 1(7) j]
  show ?case
  proof (cases "jj < j + block \<and> jj < n")
    case True
    have e: "confined S (elem_prog src dst n ii jj) h"
      using 1(2-10) True by (intro elem_confined) auto
    have "confined S (tile_row_prog src dst n j ii (jj + 1)) r"
      if r: "run_alone (elem_prog src dst n ii jj) h = Inr r" for r
      using 1(2-10) True ok run_same_lengths [OF e r]
      by (intro 1(1) [OF ok]) auto
    then show ?thesis
      using True ok e by (subst tile_row_prog.simps) (simp add: confined_then)
  next
    case False
    then show ?thesis
      using ok by (subst tile_row_prog.simps) auto
  qed
qed

lemma tile_rows_confined:
  assumes "nat (n * n) \<le> length (cells (h src))" "nat (n * n) \<le> length (cells (h dst))"
    and "n \<le> 46340" and "0 \<le> i" "i < n" "0 \<le> j" "j < n" "i \<le> ii"
    and "\<forall>ii' jj'. i \<le> ii' \<and> ii' < min (i + block) n \<and> j \<le> jj' \<and> jj' < min (j + block) n \<longrightarrow>
           elem_cells src dst n ii' jj' \<subseteq> S"
  shows "confined S (tile_rows_prog src dst n i j ii) h"
  using assms
proof (induction src dst n i j ii arbitrary: h rule: tile_rows_prog.induct)
  case (1 src dst n i j ii)
  have i: "i \<le> 2147483631" using 1(4,6) by simp
  note ok = int_add_block [OF 1(5) i]
  show ?case
  proof (cases "ii < i + block \<and> ii < n")
    case True
    have e: "confined S (tile_row_prog src dst n j ii j) h"
      using 1(2-10) True by (intro tile_row_confined) auto
    have "confined S (tile_rows_prog src dst n i j (ii + 1)) r"
      if r: "run_alone (tile_row_prog src dst n j ii j) h = Inr r" for r
      using 1(2-10) True ok run_same_lengths [OF e r]
      by (intro 1(1) [OF ok]) auto
    then show ?thesis
      using True ok e by (subst tile_rows_prog.simps) (simp add: confined_then)
  next
    case False
    then show ?thesis
      using ok by (subst tile_rows_prog.simps) auto
  qed
qed

lemma tile_confined:
  assumes mb: "matrix_buffers src dst n h" and n: "n \<le> 46340"
    and ij: "0 \<le> i" "i < n" "0 \<le> j" "j < n"
  shows "confined (tile_cells src dst n i j) (tile_prog src dst n i j) h"
proof -
  have ls: "nat (n * n) \<le> length (cells (h src))" "nat (n * n) \<le> length (cells (h dst))"
    using mb by (auto simp: matrix_buffers_def)
  have "0 \<le> n" using ij by simp
  then have "i * n + j \<le> 2147483631"
    using index_in_square(3) [OF ij] square_bound [OF _ n] by simp
  then have "and_then (index2 i n j) (\<lambda>k. int_add k block) = Inr (i * n + j + block)"
    using index_in_square [OF ij] by (simp add: index2_in_square [OF ij n] int_add_block)
  moreover have "elem_cells src dst n ii' jj' \<subseteq> tile_cells src dst n i j"
    if "i \<le> ii' \<and> ii' < min (i + block) n \<and> j \<le> jj' \<and> jj' < min (j + block) n" for ii' jj'
  proof -
    have "(ii', jj') \<in> tile_elems n i j"
      using that by (simp add: tile_elems_def)
    then show ?thesis
      unfolding tile_cells_def by blast
  qed
  then have "confined (tile_cells src dst n i j) (tile_rows_prog src dst n i j i) h"
    using ls n ij by (intro tile_rows_confined) auto
  ultimately show ?thesis
    by (simp add: tile_prog_def)
qed

lemma tile_cells_disjoint:
  assumes sd: "src \<noteq> dst" and o: "(i, j) \<in> origins n" "(i', j') \<in> origins n"
    "(i, j) \<noteq> (i', j')"
  shows "tile_cells src dst n i j \<inter> tile_cells src dst n i' j' = {}"
proof -
  have b: "block dvd i" "block dvd j" "block dvd i'" "block dvd j'"
    and r: "0 \<le> i" "0 \<le> j" "0 \<le> i'" "0 \<le> j'"
    using o(1,2) by (auto simp: origins_def)
  have sq: "tile_elems n i j \<subseteq> square n" "tile_elems n i' j' \<subseteq> square n"
    using r by (auto simp: tile_elems_def square_def)
  have "elem_cells src dst n ii jj \<inter> elem_cells src dst n ii' jj' = {}"
    if "(ii, jj) \<in> tile_elems n i j" "(ii', jj') \<in> tile_elems n i' j'" for ii jj ii' jj'
  proof -
    have "(ii, jj) \<noteq> (ii', jj')"
      using tile_elems_disjoint [OF b o(3), of n] that by blast
    then show ?thesis
      using sq that by (intro elem_cells_disjoint [OF sd]) auto
  qed
  then show ?thesis
    by (fastforce simp: tile_cells_def)
qed


lemma positions_independent:
  assumes a: "position_buffers x y vx vy len h" "nat n \<le> len"
  shows "independent (positions_elem x y vx vy) (positions_prog x y vx vy)
           (positions_cells x y vx vy) (iterations 0 n 1) h (pos_result x y vx vy {0..<n} h)"
proof (rule independentI)
  show "run_alone (positions_prog x y vx vy i) g = positions_elem x y vx vy i g" for i g
    by (rule positions_prog_run)
  show "distinct (iterations 0 n 1)"
    by (rule iterations_distinct)
  show "positions_cells x y vx vy i \<inter> positions_cells x y vx vy j = {}"
    if "i \<in> set (iterations 0 n 1)" "j \<in> set (iterations 0 n 1)" "i \<noteq> j" for i j
    using that by (intro positions_cells_disjoint) (simp_all add: iterations_set_1)
  show "confined (positions_cells x y vx vy i) (positions_prog x y vx vy i) h"
    if "i \<in> set (iterations 0 n 1)" for i
  proof -
    have i: "0 \<le> i" "i < n"
      using that by (simp_all add: iterations_set_1)
    then have "nat i < len"
      using a(2) by linarith
    then show ?thesis
      using i by (intro positions_confined [OF a(1)])
  qed
  show "run_order (positions_elem x y vx vy) is h = Inr (pos_result x y vx vy {0..<n} h)"
    if "mset is = mset (iterations 0 n 1)" for "is"
    using positions_order [OF a that] by (simp add: positions_baseline_closed [OF a])
qed

lemma simd_independent:
  assumes a: "position_buffers x y vx vy len h" "nat n \<le> len" "8 dvd n" "n \<le> INT_MAX"
  shows "independent (simd_group x y vx vy) (simd_prog x y vx vy)
           (simd_cells x y vx vy) (iterations 0 n 8) h (pos_result x y vx vy {0..<n} h)"
proof (rule independentI)
  show "run_alone (simd_prog x y vx vy i) g = simd_group x y vx vy i g" for i g
    by (rule simd_prog_run)
  show "distinct (iterations 0 n 8)"
    by (rule iterations_distinct)
  show "simd_cells x y vx vy i \<inter> simd_cells x y vx vy j = {}"
    if "i \<in> set (iterations 0 n 8)" "j \<in> set (iterations 0 n 8)" "i \<noteq> j" for i j
    using that by (intro simd_cells_disjoint) (simp_all add: iterations_mem)
  show "confined (simd_cells x y vx vy i) (simd_prog x y vx vy i) h"
    if "i \<in> set (iterations 0 n 8)" for i
  proof -
    have i: "0 \<le> i" "i < n" "8 dvd i"
      using that by (simp_all add: iterations_mem)
    then have "i + 8 \<le> n"
      using a(3) by (auto elim!: dvdE)
    then have "nat i + 8 \<le> len"
      using i(1) a(2) by linarith
    then show ?thesis
      using i by (intro simd_confined [OF a(1)])
  qed
  show "run_order (simd_group x y vx vy) is h = Inr (pos_result x y vx vy {0..<n} h)"
    if "mset is = mset (iterations 0 n 8)" for "is"
    using simd_order [OF a that] by (simp add: positions_simd_closed [OF a])
qed

lemma baseline_transpose_independent:
  assumes a: "matrix_buffers src dst m g" "m \<le> 46340"
  shows "independent (\<lambda>(i, j). transpose_elem src dst m i j) (\<lambda>(i, j). elem_prog src dst m i j)
           (\<lambda>(i, j). elem_cells src dst m i j)
           (List.product (iterations 0 m 1) (iterations 0 m 1)) g
           (trans_result src dst m (square m) g)"
proof (rule independentI)
  let ?its = "List.product (iterations 0 m 1) (iterations 0 m 1)"
  have its: "set ?its = square m"
    by (simp add: iterations_set_1 square_def)
  have sd: "src \<noteq> dst" and ls: "nat (m * m) \<le> length (cells (g src))"
    "nat (m * m) \<le> length (cells (g dst))"
    using a(1) by (auto simp: matrix_buffers_def)
  show "run_alone (case e of (i, j) \<Rightarrow> elem_prog src dst m i j) f
        = (case e of (i, j) \<Rightarrow> transpose_elem src dst m i j) f" for e f
    by (cases e) (simp add: elem_prog_run)
  show "distinct ?its"
    by (simp add: distinct_product iterations_distinct)
  show "(case e of (i, j) \<Rightarrow> elem_cells src dst m i j)
        \<inter> (case e' of (i, j) \<Rightarrow> elem_cells src dst m i j) = {}"
    if "e \<in> set ?its" "e' \<in> set ?its" "e \<noteq> e'" for e e'
    using that elem_cells_disjoint [OF sd, of "fst e" "snd e" m "fst e'" "snd e'"]
    unfolding its by (cases e, cases e') simp
  show "confined (case e of (i, j) \<Rightarrow> elem_cells src dst m i j)
          (case e of (i, j) \<Rightarrow> elem_prog src dst m i j) g"
    if "e \<in> set ?its" for e
    using that ls a(2) unfolding its
    by (cases e) (auto simp: square_def intro!: elem_confined)
  show "run_order (\<lambda>(i, j). transpose_elem src dst m i j) es g
        = Inr (trans_result src dst m (square m) g)"
    if "mset es = mset ?its" for es
    using baseline_transpose_order [OF a that] by (simp add: transpose_baseline_closed [OF a])
qed

lemma tiles_independent:
  assumes a: "matrix_buffers src dst m g" "m \<le> 46340"
  shows "independent (\<lambda>(i, j). tile src dst m i j) (\<lambda>(i, j). tile_prog src dst m i j)
           (\<lambda>(i, j). tile_cells src dst m i j)
           (List.product (iterations 0 m block) (iterations 0 m block)) g
           (trans_result src dst m (square m) g)"
proof (rule independentI)
  let ?its = "List.product (iterations 0 m block) (iterations 0 m block)"
  have sd: "src \<noteq> dst"
    using a(1) by (auto simp: matrix_buffers_def)
  show "run_alone (case e of (i, j) \<Rightarrow> tile_prog src dst m i j) f
        = (case e of (i, j) \<Rightarrow> tile src dst m i j) f" for e f
    by (cases e) (simp add: tile_prog_run)
  show "distinct ?its"
    by (simp add: distinct_product iterations_distinct)
  show "(case e of (i, j) \<Rightarrow> tile_cells src dst m i j)
        \<inter> (case e' of (i, j) \<Rightarrow> tile_cells src dst m i j) = {}"
    if "e \<in> set ?its" "e' \<in> set ?its" "e \<noteq> e'" for e e'
    using that tile_cells_disjoint [OF sd, of "fst e" "snd e" m "fst e'" "snd e'"]
    unfolding tile_origins_set by (cases e, cases e') simp
  show "confined (case e of (i, j) \<Rightarrow> tile_cells src dst m i j)
          (case e of (i, j) \<Rightarrow> tile_prog src dst m i j) g"
    if "e \<in> set ?its" for e
    using that unfolding tile_origins_set
    by (cases e) (auto simp: origins_def intro!: tile_confined [OF a])
  show "run_order (\<lambda>(i, j). tile src dst m i j) ts g
        = Inr (trans_result src dst m (square m) g)"
    if "mset ts = mset ?its" for ts
    using tiles_order [OF a that] by (simp add: transpose_cache_optimized_closed [OF a])
qed


text \<open>
  Three particles, the loads and stores of the three iterations of
  \<^verbatim>\<open>update_positions_baseline\<close> interleaved.
\<close>

lemma scenario_interleaved_three:
  "interleave [2, 0, 1, 1, 0, 2, 2, 2, 0, 1, 1, 0, 0, 1, 2, 2, 1, 0]
     (map (positions_prog 0 1 2 3) (iterations 0 3 1)) three_particles
   = Inr ([Done, Done, Done], three_particles_advanced)"
  by (simp add: iterations_step iterations_stop positions_prog_def load_def store_def
      three_particles_def three_particles_advanced_def)


text \<open>
  Claim C8: in every kernel loop distinct iterations have no data dependency on each
  other. For the elements of \<^verbatim>\<open>update_positions_baseline\<close>, the groups of eight of
  \<^verbatim>\<open>update_positions_simd\<close>, the element pairs of \<^verbatim>\<open>matrix_transpose_baseline\<close> and
  the tiles of \<^verbatim>\<open>matrix_transpose_cache_optimized\<close>, on inputs on which the kernel is
  defined: the kernel returns a heap, and its iterations are \<open>independent\<close>. That is, the
  cells of two different iterations are disjoint; every load and store of an iteration is
  at the cells of that iteration; the iterations run concurrently, their loads and stores
  interleaved by any schedule whatever, never fault, and leave exactly the heap the kernel
  returns once they are all finished, as some schedule makes them; and the iterations run
  whole in any order leave that heap too.
\<close>

theorem parallel_iterations_independent:
  "(position_buffers x y vx vy len h \<and> nat n \<le> len \<longrightarrow>
      (\<exists>h'. update_positions_baseline x y vx vy n h = Inr h'
         \<and> independent (positions_elem x y vx vy) (positions_prog x y vx vy)
             (positions_cells x y vx vy) (iterations 0 n 1) h h'))
 \<and> (position_buffers x y vx vy len h \<and> nat n \<le> len \<and> 8 dvd n \<and> n \<le> INT_MAX \<longrightarrow>
      (\<exists>h'. update_positions_simd x y vx vy n h = Inr h'
         \<and> independent (simd_group x y vx vy) (simd_prog x y vx vy)
             (simd_cells x y vx vy) (iterations 0 n 8) h h'))
 \<and> (matrix_buffers src dst m g \<and> m \<le> 46340 \<longrightarrow>
      (\<exists>g'. matrix_transpose_baseline src dst m g = Inr g'
         \<and> independent (\<lambda>(i, j). transpose_elem src dst m i j)
             (\<lambda>(i, j). elem_prog src dst m i j) (\<lambda>(i, j). elem_cells src dst m i j)
             (List.product (iterations 0 m 1) (iterations 0 m 1)) g g'))
 \<and> (matrix_buffers src dst m g \<and> m \<le> 46340 \<longrightarrow>
      (\<exists>g'. matrix_transpose_cache_optimized src dst m g = Inr g'
         \<and> independent (\<lambda>(i, j). tile src dst m i j)
             (\<lambda>(i, j). tile_prog src dst m i j) (\<lambda>(i, j). tile_cells src dst m i j)
             (List.product (iterations 0 m block) (iterations 0 m block)) g g'))"
proof -
  have 1: "position_buffers x y vx vy len h \<and> nat n \<le> len \<longrightarrow>
      (\<exists>h'. update_positions_baseline x y vx vy n h = Inr h'
         \<and> independent (positions_elem x y vx vy) (positions_prog x y vx vy)
             (positions_cells x y vx vy) (iterations 0 n 1) h h')"
    using positions_independent positions_baseline_closed by blast
  have 2: "position_buffers x y vx vy len h \<and> nat n \<le> len \<and> 8 dvd n \<and> n \<le> INT_MAX \<longrightarrow>
      (\<exists>h'. update_positions_simd x y vx vy n h = Inr h'
         \<and> independent (simd_group x y vx vy) (simd_prog x y vx vy)
             (simd_cells x y vx vy) (iterations 0 n 8) h h')"
    using simd_independent positions_simd_closed by blast
  have 3: "matrix_buffers src dst m g \<and> m \<le> 46340 \<longrightarrow>
      (\<exists>g'. matrix_transpose_baseline src dst m g = Inr g'
         \<and> independent (\<lambda>(i, j). transpose_elem src dst m i j)
             (\<lambda>(i, j). elem_prog src dst m i j) (\<lambda>(i, j). elem_cells src dst m i j)
             (List.product (iterations 0 m 1) (iterations 0 m 1)) g g')"
    using baseline_transpose_independent transpose_baseline_closed by blast
  have 4: "matrix_buffers src dst m g \<and> m \<le> 46340 \<longrightarrow>
      (\<exists>g'. matrix_transpose_cache_optimized src dst m g = Inr g'
         \<and> independent (\<lambda>(i, j). tile src dst m i j)
             (\<lambda>(i, j). tile_prog src dst m i j) (\<lambda>(i, j). tile_cells src dst m i j)
             (List.product (iterations 0 m block) (iterations 0 m block)) g g')"
    using tiles_independent transpose_cache_optimized_closed by blast
  show ?thesis
    by (rule conjI [OF 1 conjI [OF 2 conjI [OF 3 4]]])
qed

theorem parallel_iterations_independent_witness:
  "position_buffers 0 1 2 3 8 eight_particles \<and> nat 8 \<le> (8::nat) \<and> (8::int) dvd 8 \<and> 8 \<le> INT_MAX
   \<and> independent (positions_elem 0 1 2 3) (positions_prog 0 1 2 3) (positions_cells 0 1 2 3)
        (iterations 0 8 1) eight_particles eight_particles_advanced
   \<and> independent (simd_group 0 1 2 3) (simd_prog 0 1 2 3) (simd_cells 0 1 2 3)
        (iterations 0 8 8) eight_particles eight_particles_advanced
   \<and> matrix_buffers 0 1 4 four_by_four \<and> (4::int) \<le> 46340
   \<and> independent (\<lambda>(i, j). transpose_elem 0 1 4 i j) (\<lambda>(i, j). elem_prog 0 1 4 i j)
        (\<lambda>(i, j). elem_cells 0 1 4 i j) (List.product (iterations 0 4 1) (iterations 0 4 1))
        four_by_four four_by_four_transposed
   \<and> independent (\<lambda>(i, j). tile 0 1 4 i j) (\<lambda>(i, j). tile_prog 0 1 4 i j)
        (\<lambda>(i, j). tile_cells 0 1 4 i j)
        (List.product (iterations 0 4 block) (iterations 0 4 block))
        four_by_four four_by_four_transposed
   \<and> position_buffers 0 1 2 3 3 three_particles \<and> nat 3 \<le> (3::nat)
   \<and> interleave [2, 0, 1, 1, 0, 2, 2, 2, 0, 1, 1, 0, 0, 1, 2, 2, 1, 0]
        (map (positions_prog 0 1 2 3) (iterations 0 3 1)) three_particles
      = Inr ([Done, Done, Done], three_particles_advanced)
   \<and> all_done [Done, Done, Done :: int prog]
   \<and> update_positions_baseline 0 1 2 3 3 three_particles = Inr three_particles_advanced"
proof -
  have pb: "position_buffers 0 1 2 3 8 eight_particles"
    by (simp add: position_buffers_def eight_particles_def)
  have mb: "matrix_buffers 0 1 4 four_by_four"
    by (simp add: matrix_buffers_def four_by_four_def)
  have pb3: "position_buffers 0 1 2 3 3 three_particles"
    by (simp add: position_buffers_def three_particles_def)
  have dn: "all_done [Done, Done, Done :: int prog]"
    by (simp add: all_done_def)
  have eight: "independent (positions_elem 0 1 2 3) (positions_prog 0 1 2 3)
        (positions_cells 0 1 2 3) (iterations 0 8 1) eight_particles eight_particles_advanced
   \<and> independent (simd_group 0 1 2 3) (simd_prog 0 1 2 3) (simd_cells 0 1 2 3)
        (iterations 0 8 8) eight_particles eight_particles_advanced
   \<and> independent (\<lambda>(i, j). transpose_elem 0 1 4 i j) (\<lambda>(i, j). elem_prog 0 1 4 i j)
        (\<lambda>(i, j). elem_cells 0 1 4 i j) (List.product (iterations 0 4 1) (iterations 0 4 1))
        four_by_four four_by_four_transposed
   \<and> independent (\<lambda>(i, j). tile 0 1 4 i j) (\<lambda>(i, j). tile_prog 0 1 4 i j)
        (\<lambda>(i, j). tile_cells 0 1 4 i j)
        (List.product (iterations 0 4 block) (iterations 0 4 block))
        four_by_four four_by_four_transposed"
    using pb mb scenario_baseline_eight scenario_simd_eight scenario_baseline_four
      scenario_cache_optimized_four
      parallel_iterations_independent [of 0 1 2 3 8 eight_particles 8 0 1 4 four_by_four]
    by (simp add: INT_MAX_def)
  from pb3 parallel_iterations_independent [of 0 1 2 3 3 three_particles 3 0 1 4 four_by_four]
  obtain h' where k: "update_positions_baseline 0 1 2 3 3 three_particles = Inr h'"
    and i: "independent (positions_elem 0 1 2 3) (positions_prog 0 1 2 3)
              (positions_cells 0 1 2 3) (iterations 0 3 1) three_particles h'"
    by auto
  from i have "\<exists>ts' g. interleave [2, 0, 1, 1, 0, 2, 2, 2, 0, 1, 1, 0, 0, 1, 2, 2, 1, 0]
        (map (positions_prog 0 1 2 3) (iterations 0 3 1)) three_particles = Inr (ts', g)
      \<and> (all_done ts' \<longrightarrow> g = h')"
    unfolding independent_def by blast
  then have "three_particles_advanced = h'"
    using dn unfolding scenario_interleaved_three by blast
  then have three: "update_positions_baseline 0 1 2 3 3 three_particles
                    = Inr three_particles_advanced"
    using k by simp
  show ?thesis
    using pb mb pb3 dn eight three scenario_interleaved_three by (simp add: INT_MAX_def)
qed


section \<open>The buffers a kernel does not write\<close>

lemma run_order_preserves:
  assumes "\<And>i s s'. body i s = Inr s' \<Longrightarrow> f s' = f s"
  shows "run_order body is s = Inr s' \<Longrightarrow> f s' = f s"
proof (induction "is" arbitrary: s)
  case Nil
  then show ?case by simp
next
  case (Cons i "is")
  then obtain s1 where s1: "body i s = Inr s1" and r: "run_order body is s1 = Inr s'"
    by (auto split: sum.splits)
  show ?case using Cons.IH [OF r] assms [OF s1] by simp
qed

lemma transpose_elem_frame:
  "transpose_elem src dst n ii jj h = Inr h' \<Longrightarrow> q \<noteq> dst \<Longrightarrow> h' q = h q"
  by (auto simp: transpose_elem_def and_then_Inr dest!: store_frame [where q = q])

lemma matrix_transpose_baseline_frame:
  assumes "matrix_transpose_baseline src dst n h = Inr h'" "q \<noteq> dst"
  shows "h' q = h q"
proof -
  have "(\<lambda>s. s q) h' = (\<lambda>s. s q) h"
    using assms(1) unfolding baseline_as_run
    by (rule run_order_preserves [rotated]) (auto dest: transpose_elem_frame [OF _ assms(2)])
  then show ?thesis by simp
qed

lemma tile_row_frame:
  "tile_row src dst n j ii jj h = Inr h' \<Longrightarrow> q \<noteq> dst \<Longrightarrow> h' q = h q"
proof (induction src dst n j ii jj h rule: tile_row.induct)
  case (1 src dst n j ii jj h)
  obtain jend where je: "int_add j block = Inr jend"
    using 1(2) by (subst (asm) tile_row.simps) (auto split: sum.splits)
  show ?case
  proof (cases "jj < jend \<and> jj < n")
    case True
    then obtain h1 where h1: "transpose_elem src dst n ii jj h = Inr h1"
      and r: "tile_row src dst n j ii (jj + 1) h1 = Inr h'"
      using 1(2) je by (subst (asm) tile_row.simps) (auto split: sum.splits)
    have "h' q = h1 q" using 1(1) [OF je True h1 r 1(3)] .
    then show ?thesis using transpose_elem_frame [OF h1 1(3)] by simp
  next
    case False
    then show ?thesis using 1(2) je by (subst (asm) tile_row.simps) auto
  qed
qed

lemma tile_rows_frame:
  "tile_rows src dst n i j ii h = Inr h' \<Longrightarrow> q \<noteq> dst \<Longrightarrow> h' q = h q"
proof (induction src dst n i j ii h rule: tile_rows.induct)
  case (1 src dst n i j ii h)
  obtain iend where ie: "int_add i block = Inr iend"
    using 1(2) by (subst (asm) tile_rows.simps) (auto split: sum.splits)
  show ?case
  proof (cases "ii < iend \<and> ii < n")
    case True
    then obtain h1 where h1: "tile_row src dst n j ii j h = Inr h1"
      and r: "tile_rows src dst n i j (ii + 1) h1 = Inr h'"
      using 1(2) ie by (subst (asm) tile_rows.simps) (auto split: sum.splits)
    have "h' q = h1 q" using 1(1) [OF ie True h1 r 1(3)] .
    then show ?thesis using tile_row_frame [OF h1 1(3)] by simp
  next
    case False
    then show ?thesis using 1(2) ie by (subst (asm) tile_rows.simps) auto
  qed
qed

lemma tile_frame:
  "tile src dst n i j h = Inr h' \<Longrightarrow> q \<noteq> dst \<Longrightarrow> h' q = h q"
  by (auto simp: tile_def mm_prefetch_def and_then_Inr dest: tile_rows_frame)

lemma tiles_row_frame:
  "tiles_row src dst n i j h = Inr h' \<Longrightarrow> q \<noteq> dst \<Longrightarrow> h' q = h q"
proof (induction src dst n i j h rule: tiles_row.induct)
  case (1 src dst n i j h)
  show ?case
  proof (cases "j < n")
    case True
    then obtain h1 j' where h1: "tile src dst n i j h = Inr h1"
      and j': "int_add j block = Inr j'"
      and r: "tiles_row src dst n i j' h1 = Inr h'"
      using 1(2) by (subst (asm) tiles_row.simps) (auto split: sum.splits)
    have "h' q = h1 q" using 1(1) [OF True h1 j' r 1(3)] .
    then show ?thesis using tile_frame [OF h1 1(3)] by simp
  next
    case False
    then show ?thesis using 1(2) by (subst (asm) tiles_row.simps) simp
  qed
qed

lemma tiles_rows_frame:
  "tiles_rows src dst n i h = Inr h' \<Longrightarrow> q \<noteq> dst \<Longrightarrow> h' q = h q"
proof (induction src dst n i h rule: tiles_rows.induct)
  case (1 src dst n i h)
  show ?case
  proof (cases "i < n")
    case True
    then obtain h1 i' where h1: "tiles_row src dst n i 0 h = Inr h1"
      and i': "int_add i block = Inr i'"
      and r: "tiles_rows src dst n i' h1 = Inr h'"
      using 1(2) by (subst (asm) tiles_rows.simps) (auto split: sum.splits)
    have "h' q = h1 q" using 1(1) [OF True h1 i' r 1(3)] .
    then show ?thesis using tiles_row_frame [OF h1 1(3)] by simp
  next
    case False
    then show ?thesis using 1(2) by (subst (asm) tiles_rows.simps) simp
  qed
qed


text \<open>
  Claim C10: whenever a kernel returns, the buffers that are not its outputs are as they
  were. Both position updaters leave the velocity arrays \<open>vx\<close> and \<open>vy\<close> unchanged
  (they are other buffers than \<open>x\<close> and \<open>y\<close>), and both transposers leave the source
  matrix unchanged (it is another buffer than the destination), for every \<open>n\<close>.
\<close>

theorem kernels_leave_inputs_unchanged:
  "(update_positions_baseline x y vx vy n h = Inr h' \<and> vx \<notin> {x, y} \<and> vy \<notin> {x, y} \<longrightarrow>
      h' vx = h vx \<and> h' vy = h vy)
 \<and> (update_positions_simd x y vx vy n h = Inr h'' \<and> vx \<notin> {x, y} \<and> vy \<notin> {x, y} \<longrightarrow>
      h'' vx = h vx \<and> h'' vy = h vy)
 \<and> (matrix_transpose_baseline src dst m g = Inr g' \<and> src \<noteq> dst \<longrightarrow> g' src = g src)
 \<and> (matrix_transpose_cache_optimized src dst m g = Inr g'' \<and> src \<noteq> dst \<longrightarrow> g'' src = g src)"
proof -
  have 1: "update_positions_baseline x y vx vy n h = Inr h' \<and> vx \<notin> {x, y} \<and> vy \<notin> {x, y} \<longrightarrow>
      h' vx = h vx \<and> h' vy = h vy"
    by (auto simp: update_positions_baseline_def dest: positions_loop_frame)
  have 2: "update_positions_simd x y vx vy n h = Inr h'' \<and> vx \<notin> {x, y} \<and> vy \<notin> {x, y} \<longrightarrow>
      h'' vx = h vx \<and> h'' vy = h vy"
    by (auto simp: update_positions_simd_def dest: simd_loop_frame)
  have 3: "matrix_transpose_baseline src dst m g = Inr g' \<and> src \<noteq> dst \<longrightarrow> g' src = g src"
    by (auto dest: matrix_transpose_baseline_frame)
  have 4: "matrix_transpose_cache_optimized src dst m g = Inr g'' \<and> src \<noteq> dst \<longrightarrow> g'' src = g src"
    by (auto simp: matrix_transpose_cache_optimized_def dest: tiles_rows_frame)
  show ?thesis
    by (rule conjI [OF 1 conjI [OF 2 conjI [OF 3 4]]])
qed



theorem kernels_leave_inputs_unchanged_witness:
  "update_positions_baseline 0 1 2 3 8 eight_particles = Inr eight_particles_advanced
   \<and> (2::nat) \<notin> {0, 1} \<and> (3::nat) \<notin> {0, 1}
   \<and> eight_particles_advanced 2 = eight_particles 2
   \<and> eight_particles_advanced 3 = eight_particles 3
   \<and> update_positions_simd 0 1 2 3 8 eight_particles = Inr eight_particles_advanced
   \<and> matrix_transpose_baseline 0 1 4 four_by_four = Inr four_by_four_transposed
   \<and> (0::nat) \<noteq> 1
   \<and> four_by_four_transposed 0 = four_by_four 0
   \<and> matrix_transpose_cache_optimized 0 1 4 four_by_four = Inr four_by_four_transposed"
  using kernels_leave_inputs_unchanged [of 0 1 2 3 8 eight_particles eight_particles_advanced
      eight_particles_advanced 0 1 4 four_by_four four_by_four_transposed four_by_four_transposed]
    scenario_baseline_eight scenario_simd_eight scenario_baseline_four
    scenario_cache_optimized_four
  by simp


section \<open>Claim about the population counter\<close>

lemma bit_as_shift_mask:
  fixes n :: "64 word"
  shows "uint (drop_bit i n AND 1) = of_bool (bit n i)"
  by (simp add: and_one_eq bit_iff_odd_drop_bit mod_2_eq_odd)

lemma sum_of_bool_filter:
  "(\<Sum>i\<leftarrow>xs. (of_bool (P i) :: int)) = int (length (filter P xs))"
  by (induction xs) auto

lemma popcnt_one_size: "popcnt 64 64 n = Inr (builtin_popcountll n)"
  by (simp add: popcnt_def builtin_popcountll_def bit_as_shift_mask sum_of_bool_filter)

lemma builtin_range: "0 \<le> builtin_popcountll n \<and> builtin_popcountll n \<le> 64"
proof -
  have "length (filter (bit n) [0..<64]) \<le> length [0..<64]"
    by (rule length_filter_le)
  then show ?thesis by (simp add: builtin_popcountll_def)
qed

text \<open>
  Built without \<^verbatim>\<open>USE_X86_ASM\<close>, \<^verbatim>\<open>count_set_bits\<close> is the builtin: it returns a
  value in \<open>[0, 64]\<close> for every \<open>v\<close>. Built with it, the function does not assemble,
  whatever the target and whatever \<open>v\<close>; had the assembly a destination of 64 bits, it
  would return what the builtin returns (\<open>popcnt_one_size\<close>).
\<close>

lemma count_set_bits_builtin:
  "\<not> USE_X86_ASM t \<Longrightarrow>
     count_set_bits t v = Inr (builtin_popcountll v)
     \<and> 0 \<le> builtin_popcountll v \<and> builtin_popcountll v \<le> 64"
  using builtin_range [of v] by (simp add: count_set_bits_def)

lemma count_set_bits_asm: "USE_X86_ASM t \<Longrightarrow> count_set_bits t v = Inl NotBuilt"
  by (simp add: count_set_bits_def popcnt_def)

text \<open>The boundary values, and the scenario of the spec: \<open>0x123456789ABCDEF0\<close> has 32 bits set.\<close>

lemma builtin_popcountll_boundaries:
  "builtin_popcountll 0 = 0" "builtin_popcountll 0xFFFFFFFFFFFFFFFF = 64"
  "builtin_popcountll 0x123456789ABCDEF0 = 32"
  by (simp_all add: builtin_popcountll_def upt_rec)


text \<open>
  Claim C4: for every 64-bit value \<open>v\<close>, \<open>0x0\<close> and \<open>0xFFFFFFFFFFFFFFFF\<close> included, the
  builtin and the \<^verbatim>\<open>popcnt\<close> implementation of \<^verbatim>\<open>count_set_bits\<close> return the same
  value, and the value lies in \<open>[0, 64]\<close>. The code does not do that. The assembly gives
  \<^verbatim>\<open>popcnt\<close> the 32-bit register of \<^verbatim>\<open>int count\<close> as destination and the 64-bit
  register of \<^verbatim>\<open>uint64_t n\<close> as source, so the build with \<^verbatim>\<open>USE_X86_ASM\<close> does not
  assemble and the \<^verbatim>\<open>popcnt\<close> implementation returns no value: at
  \<open>0xFFFFFFFFFFFFFFFF\<close> the builtin returns 64 and the assembly nothing.
\<close>

theorem count_set_bits_asm_returns_nothing:
  "count_set_bits \<lparr>x86_64 = True, USE_X86_ASM = True\<rparr> 0xFFFFFFFFFFFFFFFF = Inl NotBuilt
   \<and> count_set_bits \<lparr>x86_64 = True, USE_X86_ASM = False\<rparr> 0xFFFFFFFFFFFFFFFF = Inr 64"
  by (simp add: count_set_bits_def popcnt_def builtin_popcountll_def upt_rec)



section \<open>Claim about the memory copier\<close>

lemma rep_movsb_closed:
  assumes "rdi \<noteq> rsi" "si + n \<le> length (cells (h rsi))" "di + n \<le> length (cells (h rdi))"
  shows "rep_movsb rdi di rsi si n h =
         Inr (h(rdi := (h rdi)\<lparr>cells :=
           take di (cells (h rdi)) @ take n (drop si (cells (h rsi))) @ drop (di + n) (cells (h rdi))\<rparr>))"
  using assms
proof (induction n arbitrary: di si h)
  case 0
  then show ?case by simp
next
  case (Suc n)
  let ?c = "cells (h rdi)" and ?s = "cells (h rsi)"
  let ?h1 = "h(rdi := (h rdi)\<lparr>cells := ?c[di := ?s ! si]\<rparr>)"
  have ld: "load h rsi (int si) = Inr (?s ! si)"
    using Suc.prems by (simp add: load_def)
  have st: "store h rdi (int di) (?s ! si) = Inr ?h1"
    using Suc.prems by (simp add: store_def)
  have "rep_movsb rdi (Suc di) rsi (Suc si) n ?h1 =
        Inr (?h1(rdi := (?h1 rdi)\<lparr>cells :=
           take (Suc di) (cells (?h1 rdi)) @ take n (drop (Suc si) (cells (?h1 rsi)))
             @ drop (Suc di + n) (cells (?h1 rdi))\<rparr>))"
    using Suc.prems by (intro Suc.IH) auto
  moreover have "take (Suc di) (?c[di := ?s ! si]) = take di ?c @ [?s ! si]"
    using Suc.prems by (simp add: take_Suc_conv_app_nth)
  moreover have "take (Suc n) (drop si ?s) = ?s ! si # take n (drop (Suc si) ?s)"
    using Suc.prems by (simp add: Cons_nth_drop_Suc [symmetric])
  ultimately show ?case
    using Suc.prems(1) by (simp add: ld st) (auto simp: fun_upd_def)
qed


text \<open>
  Claim C6: for every \<open>n\<close> and every pair of distinct buffers that hold at least \<open>n\<close>
  bytes, \<^verbatim>\<open>custom_memcpy(dst, src, n)\<close> returns, on either branch of its \<^verbatim>\<open>#ifdef\<close>,
  with the first \<open>n\<close> bytes of \<open>dst\<close> equal to those of \<open>src\<close>, the rest of \<open>dst\<close> and
  all of \<open>src\<close> unchanged; for \<open>n = 0\<close> the heap is unchanged.
\<close>

theorem custom_memcpy_copies:
  assumes "dst \<noteq> src" "n \<le> length (cells (h src))" "n \<le> length (cells (h dst))"
  shows "\<exists>h'. custom_memcpy t dst src n h = Inr h'
           \<and> take n (cells (h' dst)) = take n (cells (h src))
           \<and> drop n (cells (h' dst)) = drop n (cells (h dst))
           \<and> h' src = h src
           \<and> (n = 0 \<longrightarrow> h' = h)"
proof (cases "x86_64 t")
  case True
  then show ?thesis
    using assms by (simp add: custom_memcpy_def rep_movsb_closed)
next
  case False
  then show ?thesis
    using assms by (simp add: custom_memcpy_def std_memcpy_def)
qed

theorem custom_memcpy_copies_witness:
  "(1::nat) \<noteq> 0 \<and> 2 \<le> length (cells (three_bytes 0)) \<and> 2 \<le> length (cells (three_bytes 1))
   \<and> (\<exists>h'. custom_memcpy \<lparr>x86_64 = True, USE_X86_ASM = False\<rparr> 1 0 2 three_bytes = Inr h'
           \<and> take 2 (cells (h' 1)) = take 2 (cells (three_bytes 0))
           \<and> drop 2 (cells (h' 1)) = drop 2 (cells (three_bytes 1))
           \<and> h' 0 = three_bytes 0)
   \<and> (\<exists>h'. custom_memcpy \<lparr>x86_64 = False, USE_X86_ASM = False\<rparr> 1 0 0 three_bytes = Inr h'
           \<and> h' = three_bytes)"
  using custom_memcpy_copies [of 1 0 2 three_bytes "\<lparr>x86_64 = True, USE_X86_ASM = False\<rparr>"]
    custom_memcpy_copies [of 1 0 0 three_bytes "\<lparr>x86_64 = False, USE_X86_ASM = False\<rparr>"]
  by (simp add: three_bytes_def)


text \<open>Copying nothing changes nothing, whatever the pointers; and a copy of two bytes.\<close>

lemma custom_memcpy_nothing: "custom_memcpy t dst src 0 h = Inr h"
  by (simp add: custom_memcpy_def std_memcpy_def)

lemma scenario_copy:
  "custom_memcpy \<lparr>x86_64 = True, USE_X86_ASM = False\<rparr> 1 0 2 three_bytes
   = Inr (three_bytes (1 := \<lparr>base = 0, cells = [1, 2, 9]\<rparr>))"
  "custom_memcpy \<lparr>x86_64 = False, USE_X86_ASM = False\<rparr> 1 0 2 three_bytes
   = Inr (three_bytes (1 := \<lparr>base = 0, cells = [1, 2, 9]\<rparr>))"
  by (simp_all add: custom_memcpy_def std_memcpy_def load_def store_def three_bytes_def
      numeral_2_eq_2)


section \<open>Claim about targets without the specialized instructions\<close>

lemma builds_iff:
  "builds provides t \<longleftrightarrow>
     provides (Header ''simulator.h'') \<and> provides (Header ''immintrin.h'')
     \<and> provides (Header ''omp.h'') \<and> provides (Header ''vector'') \<and> provides (Header ''cstring'')
     \<and> provides (Intrinsic ''_mm256_load_ps'') \<and> provides (Intrinsic ''_mm256_add_ps'')
     \<and> provides (Intrinsic ''_mm256_store_ps'') \<and> provides (Intrinsic ''_mm_prefetch'')
     \<and> \<not> USE_X86_ASM t \<and> provides (Builtin ''__builtin_popcountll'')
     \<and> (if x86_64 t then provides Asm_rep_movsb else provides (Library ''std::memcpy''))"
  by (auto simp: builds_def needs_def available_def)


text \<open>
  Claim C2, as stated: on a target lacking the specialized instructions every kernel with
  a specialized path compiles and runs by falling back to the portable implementation,
  with the results of the baseline. It fails. For 64-bit ARM, where \<^verbatim>\<open>immintrin.h\<close>
  does not exist, the file does not build, so neither \<^verbatim>\<open>update_positions_simd\<close> nor
  \<^verbatim>\<open>custom_memcpy\<close>, whose \<^verbatim>\<open>std::memcpy\<close> branch is in the same file, runs there,
  while the portable implementations, where built, advance the eight particles and copy
  the two bytes.
\<close>

theorem nothing_builds_without_immintrin:
  "\<not> aarch64_toolchain (Header ''immintrin.h'')
   \<and> \<not> builds aarch64_toolchain \<lparr>x86_64 = False, USE_X86_ASM = False\<rparr>
   \<and> on_target aarch64_toolchain \<lparr>x86_64 = False, USE_X86_ASM = False\<rparr>
        (update_positions_simd 0 1 2 3 8 eight_particles) = Inl NotBuilt
   \<and> update_positions_baseline 0 1 2 3 8 eight_particles = Inr eight_particles_advanced
   \<and> on_target aarch64_toolchain \<lparr>x86_64 = False, USE_X86_ASM = False\<rparr>
        (custom_memcpy \<lparr>x86_64 = False, USE_X86_ASM = False\<rparr> 1 0 2 three_bytes)
      = Inl NotBuilt
   \<and> std_memcpy 1 0 2 three_bytes = Inr (three_bytes (1 := \<lparr>base = 0, cells = [1, 2, 9]\<rparr>))"
  using scenario_baseline_eight
  by (simp add: on_target_def builds_def needs_def available_def aarch64_toolchain_def
      std_memcpy_def three_bytes_def)


text \<open>
  Claim C2, amended: whatever the toolchain and the build configuration, the file builds
  only where \<^verbatim>\<open>immintrin.h\<close> and the intrinsics \<^verbatim>\<open>_mm256_load_ps\<close>,
  \<^verbatim>\<open>_mm256_add_ps\<close>, \<^verbatim>\<open>_mm256_store_ps\<close> and \<^verbatim>\<open>_mm_prefetch\<close> exist, since no
  \<^verbatim>\<open>#ifdef\<close> keeps them from a target without them; where it does not build, no kernel
  of it runs and nothing falls back. Where it builds, its two preprocessor branches select
  the portable implementations: built without \<^verbatim>\<open>__x86_64__\<close>, \<^verbatim>\<open>custom_memcpy\<close> is
  \<^verbatim>\<open>std::memcpy\<close>, and built without \<^verbatim>\<open>USE_X86_ASM\<close>, \<^verbatim>\<open>count_set_bits\<close> is the
  builtin.
\<close>

theorem builds_only_with_the_intrinsics:
  "(builds provides t \<longrightarrow>
      provides (Header ''immintrin.h'') \<and> provides (Intrinsic ''_mm256_load_ps'')
      \<and> provides (Intrinsic ''_mm256_add_ps'') \<and> provides (Intrinsic ''_mm256_store_ps'')
      \<and> provides (Intrinsic ''_mm_prefetch''))
   \<and> (\<not> builds provides t \<longrightarrow> on_target provides t k = Inl NotBuilt)
   \<and> (builds provides t \<and> \<not> x86_64 t \<longrightarrow>
        on_target provides t (custom_memcpy t dst src n h) = std_memcpy dst src n h)
   \<and> (builds provides t \<and> \<not> USE_X86_ASM t \<longrightarrow>
        on_target provides t (count_set_bits t v) = Inr (builtin_popcountll v))"
  by (auto simp: builds_iff on_target_def custom_memcpy_def count_set_bits_def)

theorem builds_only_with_the_intrinsics_witness:
  "builds x86_avx_toolchain \<lparr>x86_64 = False, USE_X86_ASM = False\<rparr>
   \<and> x86_avx_toolchain (Header ''immintrin.h'')
   \<and> x86_avx_toolchain (Intrinsic ''_mm256_load_ps'')
   \<and> on_target x86_avx_toolchain \<lparr>x86_64 = False, USE_X86_ASM = False\<rparr>
        (custom_memcpy \<lparr>x86_64 = False, USE_X86_ASM = False\<rparr> 1 0 2 three_bytes)
      = std_memcpy 1 0 2 three_bytes
   \<and> on_target x86_avx_toolchain \<lparr>x86_64 = False, USE_X86_ASM = False\<rparr>
        (count_set_bits \<lparr>x86_64 = False, USE_X86_ASM = False\<rparr> 0x123456789ABCDEF0)
      = Inr (builtin_popcountll 0x123456789ABCDEF0)
   \<and> \<not> builds aarch64_toolchain \<lparr>x86_64 = False, USE_X86_ASM = False\<rparr>
   \<and> on_target aarch64_toolchain \<lparr>x86_64 = False, USE_X86_ASM = False\<rparr>
        (matrix_transpose_cache_optimized 0 1 4 four_by_four) = Inl NotBuilt"
proof -
  have b: "builds x86_avx_toolchain \<lparr>x86_64 = False, USE_X86_ASM = False\<rparr>"
    by (simp add: builds_def needs_def available_def x86_avx_toolchain_def)
  have n: "\<not> builds aarch64_toolchain \<lparr>x86_64 = False, USE_X86_ASM = False\<rparr>"
    by (simp add: builds_def needs_def available_def aarch64_toolchain_def)
  have c: "\<not> x86_64 \<lparr>x86_64 = False, USE_X86_ASM = False\<rparr>"
    "\<not> USE_X86_ASM \<lparr>x86_64 = False, USE_X86_ASM = False\<rparr>"
    by simp_all
  show ?thesis
    using b n c
      builds_only_with_the_intrinsics [of x86_avx_toolchain
        "\<lparr>x86_64 = False, USE_X86_ASM = False\<rparr>" _ 1 0 2 three_bytes "0x123456789ABCDEF0"]
      builds_only_with_the_intrinsics [of aarch64_toolchain
        "\<lparr>x86_64 = False, USE_X86_ASM = False\<rparr>"
        "matrix_transpose_cache_optimized 0 1 4 four_by_four"]
    by blast
qed


end
